theory Spec2Isabelle
  imports Complex_Main
begin

section \<open>Reverse stress testing: the notebook's functions over exact reals\<close>

text \<open>
  The notebook \<^verbatim>\<open>reverse_stress_testing.ipynb\<close> defines \<^verbatim>\<open>gram_schmidt_rows\<close>,
  \<^verbatim>\<open>p_from_w\<close>, \<^verbatim>\<open>standard_simplex_vertices\<close>, \<^verbatim>\<open>quadratic_form_inv\<close> and
  \<^verbatim>\<open>comp_scenarios\<close> on numpy arrays. Here a one-dimensional array is a list of reals
  and a two-dimensional array is the list of its rows. Arithmetic is exact: a double is
  read as the real number it approximates, so "within numerical tolerance" becomes
  equality. Python exceptions are values of the type \<open>error\<close>.

  The routines of numpy and scipy that the notebook calls (\<^verbatim>\<open>np.linalg.qr\<close>,
  \<^verbatim>\<open>np.linalg.eig\<close>, \<^verbatim>\<open>np.linalg.solve\<close>, \<^verbatim>\<open>multivariate_normal.pdf\<close>) are not
  part of the notebook; they are parameters of the model, and a theorem that depends on
  what they return states their documented contract as a hypothesis, on the array they
  are called with. The model does not check the shape of what they return: numpy fixes
  it.

  Where the Python divides by zero, takes the logarithm of a number that is not
  positive or the root of a negative number, numpy returns \<^verbatim>\<open>inf\<close> or \<^verbatim>\<open>nan\<close> and goes
  on without raising. The model goes on as well, with the value HOL gives the
  operation; the theorems that state a computed value exclude such inputs by their
  hypotheses.
\<close>

type_synonym vec = "real list"
type_synonym mat = "real list list"

datatype error = IndexError | ValueError | ZeroDivisionError | LinAlgError

subsection \<open>Array operations\<close>

definition dot :: "vec \<Rightarrow> vec \<Rightarrow> real" where
  "dot x y = sum_list (map2 (*) x y)"

definition norm_v :: "vec \<Rightarrow> real" where
  \<comment> \<open>\<^verbatim>\<open>np.linalg.norm\<close> of a one-dimensional array\<close>
  "norm_v x = sqrt (dot x x)"

definition ncols :: "mat \<Rightarrow> nat" where
  "ncols m = (case m of [] \<Rightarrow> 0 | r # _ \<Rightarrow> length r)"

definition col :: "mat \<Rightarrow> nat \<Rightarrow> vec" where
  "col m j = map (\<lambda>r. r ! j) m"

definition mat_T :: "mat \<Rightarrow> mat" where
  "mat_T m = map (col m) [0..<ncols m]"

definition is_mat :: "nat \<Rightarrow> nat \<Rightarrow> mat \<Rightarrow> bool" where
  "is_mat r c m \<longleftrightarrow> length m = r \<and> list_all (\<lambda>row. length row = c) m"

definition zeros :: "nat \<Rightarrow> nat \<Rightarrow> mat" where
  "zeros r c = replicate r (replicate c 0)"

definition eye :: "nat \<Rightarrow> mat" where
  "eye n = map (\<lambda>i. map (\<lambda>j. if i = j then 1 else 0) [0..<n]) [0..<n]"

definition set_entry :: "mat \<Rightarrow> nat \<Rightarrow> nat \<Rightarrow> real \<Rightarrow> mat" where
  \<comment> \<open>\<^verbatim>\<open>m[i, j] = v\<close>\<close>
  "set_entry m i j v = m[i := (m ! i)[j := v]]"

definition neg_col :: "mat \<Rightarrow> nat \<Rightarrow> mat" where
  \<comment> \<open>\<^verbatim>\<open>m[:, j] = -m[:, j]\<close>\<close>
  "neg_col m j = map (\<lambda>r. r[j := - (r ! j)]) m"

definition mat_vec :: "mat \<Rightarrow> vec \<Rightarrow> vec" where
  "mat_vec m x = map (\<lambda>r. dot r x) m"

definition mat_mul :: "mat \<Rightarrow> mat \<Rightarrow> mat" where
  "mat_mul a b = map (\<lambda>r. map (\<lambda>j. dot r (col b j)) [0..<ncols b]) a"

definition nonzero :: "bool list \<Rightarrow> nat list" where
  \<comment> \<open>\<^verbatim>\<open>b.nonzero()[0]\<close>: the indices at which \<open>b\<close> holds, ascending\<close>
  "nonzero b = filter (\<lambda>j. b ! j) [0..<length b]"

subsection \<open>Auxiliary functions of the notebook\<close>

definition gram_schmidt_rows :: "(mat \<Rightarrow> mat) \<Rightarrow> mat \<Rightarrow> mat" where
  \<comment> \<open>\<^verbatim>\<open>q, r = np.linalg.qr(x.T); return q.T\<close>; \<open>qr\<close> gives the factor \<open>q\<close>\<close>
  "gram_schmidt_rows qr x = mat_T (qr (mat_T x))"

definition p_start :: "vec \<Rightarrow> nat \<Rightarrow> mat" where
  \<comment> \<open>the array \<open>p\<close> of \<^verbatim>\<open>p_from_w\<close> when \<^verbatim>\<open>gram_schmidt_rows\<close> is called\<close>
  "p_start w j0 =
     (let n = length w;
          p = zeros n n;
          p = p[0 := map (\<lambda>x. x / norm_v w) w];
          p = fold (\<lambda>j p. set_entry p (j + 1) j 1) [0..<j0] p;
          p = fold (\<lambda>j p. set_entry p j j 1) [j0 + 1..<n] p
      in p)"

definition flip_step :: "nat \<Rightarrow> mat \<Rightarrow> mat" where
  \<comment> \<open>\<^verbatim>\<open>if gs[0, j] < 0: gs[:, j] = -gs[:, j]\<close>\<close>
  "flip_step j gs = (if gs ! 0 ! j < 0 then neg_col gs j else gs)"

definition flip_columns :: "mat \<Rightarrow> mat" where
  \<comment> \<open>\<^verbatim>\<open>for j in range(gs.shape[1]): ...\<close>\<close>
  "flip_columns gs = fold flip_step [0..<ncols gs] gs"

definition j0_of :: "vec \<Rightarrow> error + nat" where
  \<comment> \<open>\<^verbatim>\<open>(np.abs(w) > 0.00001).nonzero()[0][0]\<close>; indexing the empty array raises\<close>
  "j0_of w = (case nonzero (map (\<lambda>x. \<bar>x\<bar> > 1 / 100000) w) of
                [] \<Rightarrow> Inl IndexError
              | j # _ \<Rightarrow> Inr j)"

definition p_from_w :: "(mat \<Rightarrow> mat) \<Rightarrow> vec \<Rightarrow> error + mat" where
  \<comment> \<open>\<^verbatim>\<open>p[0, :] = ...\<close> raises on the empty array, before \<open>j0\<close> is looked for\<close>
  "p_from_w qr w =
     (if length w = 0 then Inl IndexError
      else case j0_of w of
             Inl e \<Rightarrow> Inl e
           | Inr j0 \<Rightarrow> Inr (flip_columns (gram_schmidt_rows qr (p_start w j0))))"

subsection \<open>The contract of \<^verbatim>\<open>np.linalg.qr\<close>\<close>

text \<open>
  numpy documents the factor \<open>q\<close> of a square array as a matrix with orthonormal
  columns, and \<open>r = q' a\<close> as upper triangular. For a square \<open>q\<close> orthonormal columns
  are orthonormal rows as well; \<open>orthogonal_mat\<close> states both.
\<close>

definition orthonormal_cols :: "nat \<Rightarrow> mat \<Rightarrow> bool" where
  "orthonormal_cols n q \<longleftrightarrow> is_mat n n q \<and> mat_mul (mat_T q) q = eye n"

definition orthogonal_mat :: "nat \<Rightarrow> mat \<Rightarrow> bool" where
  "orthogonal_mat n q \<longleftrightarrow> orthonormal_cols n q \<and> mat_mul q (mat_T q) = eye n"

definition upper_triangular :: "mat \<Rightarrow> bool" where
  "upper_triangular r \<longleftrightarrow>
     list_all (\<lambda>i. list_all (\<lambda>j. r ! i ! j = 0) [0..<i]) [0..<length r]"

definition qr_factor :: "mat \<Rightarrow> mat \<Rightarrow> bool" where
  \<comment> \<open>\<open>q\<close> is the orthogonal factor of a QR factorisation of the square array \<open>a\<close>\<close>
  "qr_factor a q \<longleftrightarrow>
     orthogonal_mat (length a) q \<and> upper_triangular (mat_mul (mat_T q) a)"

subsection \<open>A reference factorisation\<close>

text \<open>
  Classical Gram-Schmidt on the columns of an array: one function that meets the
  contract on arrays of full rank. It instantiates the parameter \<open>qr\<close> where a theorem
  is evaluated on a concrete input.
\<close>

definition vsub_proj :: "vec \<Rightarrow> vec \<Rightarrow> vec \<Rightarrow> vec" where
  \<comment> \<open>\<open>v - (q \<cdot> a) q\<close>\<close>
  "vsub_proj a q v = map2 (\<lambda>x y. x - dot q a * y) v q"

fun gs_orth :: "vec list \<Rightarrow> vec list \<Rightarrow> vec list" where
  "gs_orth qs [] = qs"
| "gs_orth qs (a # as) =
     (let v = fold (vsub_proj a) qs a
      in gs_orth (qs @ [map (\<lambda>x. x / norm_v v) v]) as)"

definition qr_gram_schmidt :: "mat \<Rightarrow> mat" where
  "qr_gram_schmidt a = mat_T (gs_orth [] (mat_T a))"

subsection \<open>The simplex\<close>

definition dist_v :: "vec \<Rightarrow> vec \<Rightarrow> real" where
  \<comment> \<open>the Euclidean distance of two points\<close>
  "dist_v x y = norm_v (map2 (-) x y)"

definition centroid :: "mat \<Rightarrow> vec" where
  \<comment> \<open>the mean of the columns of an array\<close>
  "centroid t = map (\<lambda>r. sum_list r / real (length r)) t"

definition simplex_start :: "nat \<Rightarrow> mat" where
  \<comment> \<open>the array \<open>a\<close> of \<^verbatim>\<open>standard_simplex_vertices\<close>: \<^verbatim>\<open>a = np.eye(M); a[0, :] = 1\<close>\<close>
  "simplex_start m = (eye m)[0 := replicate m 1]"

definition standard_simplex_vertices :: "(mat \<Rightarrow> mat) \<Rightarrow> int \<Rightarrow> error + mat" where
  \<comment> \<open>\<^verbatim>\<open>np.eye(M)\<close> raises for a negative \<open>M\<close>, \<^verbatim>\<open>1 / M\<close> for \<open>M = 0\<close>, and
      \<^verbatim>\<open>gs[0, 0]\<close> for \<open>M = 1\<close>, when no row is left after \<^verbatim>\<open>np.delete\<close>\<close>
  "standard_simplex_vertices qr M =
     (if M < 0 then Inl ValueError
      else if M = 0 then Inl ZeroDivisionError
      else
        let m = nat M;
            z = map (map (\<lambda>x. x - 1 / real_of_int M)) (eye m);
            p = gram_schmidt_rows qr (simplex_start m);
            cls = [1..<m] @ [0];
            gs = map (\<lambda>r. map (\<lambda>j. r ! j) cls) (tl (mat_mul p z))
        in if gs = [] then Inl IndexError
           else
             let gs = (if gs ! 0 ! 0 < 0 then map (map uminus) gs else gs)
             in Inr (map (map (\<lambda>x. x * sqrt (real_of_int M / (real_of_int M - 1)))) gs))"

subsection \<open>The main procedure\<close>

record numpy =
  linalg_qr :: "mat \<Rightarrow> mat"
  linalg_eig :: "mat \<Rightarrow> error + vec \<times> mat"
  linalg_solve :: "mat \<Rightarrow> vec \<Rightarrow> error + vec"
  mvn_pdf :: "vec \<Rightarrow> mat \<Rightarrow> error + real"

definition quadratic_form_inv :: "(mat \<Rightarrow> vec \<Rightarrow> error + vec) \<Rightarrow> mat \<Rightarrow> vec \<Rightarrow> error + real" where
  \<comment> \<open>\<^verbatim>\<open>ax = np.linalg.solve(a, x); return x.T.dot(ax)\<close>\<close>
  "quadratic_form_inv solve a x =
     (case solve a x of Inl e \<Rightarrow> Inl e | Inr ax \<Rightarrow> Inr (dot x ax))"

definition argsort :: "vec \<Rightarrow> nat list" where
  \<comment> \<open>\<^verbatim>\<open>vals.argsort()\<close>: the indices in ascending order of value; equal values keep
      their order here, numpy leaves it to its sorting routine\<close>
  "argsort v = sort_key (\<lambda>i. v ! i) [0..<length v]"

primrec collect :: "(error + 'a) list \<Rightarrow> error + 'a list" where
  \<comment> \<open>a list comprehension stops at the first element that raises\<close>
  "collect [] = Inr []"
| "collect (x # xs) =
     (case x of
        Inl e \<Rightarrow> Inl e
      | Inr v \<Rightarrow> (case collect xs of Inl e \<Rightarrow> Inl e | Inr vs \<Rightarrow> Inr (v # vs)))"

definition dy_of :: "mat \<Rightarrow> mat \<Rightarrow> mat" where
  \<comment> \<open>\<^verbatim>\<open>dy = p.dot(c.dot(p.T))\<close>: the covariance in the transformed space\<close>
  "dy_of p c = mat_mul p (mat_mul c (mat_T p))"

definition dyh_of :: "mat \<Rightarrow> mat" where
  \<comment> \<open>\<^verbatim>\<open>dyh = dII - i_m / d11\<close> with \<^verbatim>\<open>d11 = dy[0, 0]\<close>, \<^verbatim>\<open>dI1 = dy[1:, 0]\<close>,
      \<^verbatim>\<open>dII = dy[1:, 1:]\<close> and \<^verbatim>\<open>i_m\<close> the outer product of \<^verbatim>\<open>dI1\<close> with itself\<close>
  "dyh_of dy =
     (let d11 = dy ! 0 ! 0;
          dI1 = map (\<lambda>r. r ! 0) (tl dy);
          dII = map tl (tl dy);
          i_m = map (\<lambda>a. map (\<lambda>b. a * b) dI1) dI1
      in map2 (map2 (\<lambda>x y. x - y / d11)) dII i_m)"

definition v_of :: "vec \<Rightarrow> mat \<Rightarrow> int \<Rightarrow> mat" where
  \<comment> \<open>\<^verbatim>\<open>ind = vals.argsort()[::-1]; V = vect[:, ind]\<close>, then \<^verbatim>\<open>V[:, :(M - 1)]\<close>\<close>
  "v_of vals vect M =
     (let ind = rev (argsort vals);
          V = map (\<lambda>r. map (\<lambda>j. r ! j) ind) vect
      in map (take (nat (M - 1))) V)"

definition comp_scenarios ::
  "numpy \<Rightarrow> mat \<Rightarrow> vec \<Rightarrow> real \<Rightarrow> real \<Rightarrow> int \<Rightarrow> error + mat \<times> vec" where
  \<comment> \<open>the result is the pair \<^verbatim>\<open>(scenarios, lik)\<close>: the rows of \<^verbatim>\<open>scenarios\<close> are the
      factors, its columns \<^verbatim>\<open>Scenario_0 .. Scenario_M\<close>. \<^verbatim>\<open>c.dot(w)\<close> and \<^verbatim>\<open>w.dot(cw)\<close>
      raise unless \<open>c\<close> is \<open>n \<times> n\<close>, and \<^verbatim>\<open>V[:, :(M - 1)].dot(t)\<close> unless the shapes agree\<close>
  "comp_scenarios np c w L q M =
     (let n = length w in
      if \<not> is_mat n n c then Inl ValueError
      else
        let cw = mat_vec c w;
            ah = map (\<lambda>x. L * x / dot w cw) cw
        in case p_from_w (linalg_qr np) w of
             Inl e \<Rightarrow> Inl e
           | Inr p \<Rightarrow>
        let ahy_full = mat_vec p ah;
            first_comp = ahy_full ! 0;
            dy = dy_of p c;
            d11 = dy ! 0 ! 0;
            dI1 = map (\<lambda>r. r ! 0) (tl dy);
            wn = norm_v w;
            ahy = map (\<lambda>x. L * x / d11 / wn) dI1;
            dyh = dyh_of dy
        in case linalg_eig np dyh of
             Inl e \<Rightarrow> Inl e
           | Inr (vals, vect) \<Rightarrow>
        case standard_simplex_vertices (linalg_qr np) M of
             Inl e \<Rightarrow> Inl e
           | Inr t \<Rightarrow>
        let Vm = v_of vals vect M
        in if ncols Vm \<noteq> length t then Inl ValueError
           else
        let z = mat_mul Vm t;
            z_last = map last z
        in case quadratic_form_inv (linalg_solve np) dyh z_last of
             Inl e \<Rightarrow> Inl e
           | Inr denom \<Rightarrow>
        let r = sqrt (- 2 * ln q / denom);
            rz = map2 (\<lambda>a. map (\<lambda>x. r * x + a)) ahy z;
            df = map2 (#) ahy rz;
            df = replicate (nat (M + 1)) first_comp # df;
            ar = mat_mul (mat_T p) df
        in case collect (map (\<lambda>j. mvn_pdf np (col ar j) c) [0..<nat (M + 1)]) of
             Inl e \<Rightarrow> Inl e
           | Inr lik \<Rightarrow> Inr (ar, map (\<lambda>l. l / lik ! 0) lik))"

definition scenario :: "nat \<Rightarrow> error + mat \<times> vec \<Rightarrow> error + vec" where
  \<comment> \<open>the column \<^verbatim>\<open>Scenario_j\<close> of a result\<close>
  "scenario j res = (case res of Inl e \<Rightarrow> Inl e | Inr (s, _) \<Rightarrow> Inr (col s j))"

definition likelihood :: "error + mat \<times> vec \<Rightarrow> error + vec" where
  "likelihood res = (case res of Inl e \<Rightarrow> Inl e | Inr (_, l) \<Rightarrow> Inr l)"

subsection \<open>Reference routines on diagonal arrays\<close>

text \<open>
  On a diagonal array the eigenvalues are the diagonal entries, the eigenvectors the
  unit vectors, a linear system is solved entry by entry and the normal density is a
  product of one-dimensional densities. These routines, with \<open>qr_gram_schmidt\<close>,
  instantiate the parameter \<open>np\<close> where the procedure is evaluated on a concrete input;
  on any other array they raise.
\<close>

definition is_diag :: "mat \<Rightarrow> bool" where
  "is_diag m \<longleftrightarrow>
     is_mat (length m) (length m) m \<and>
     list_all (\<lambda>i. list_all (\<lambda>j. i = j \<or> m ! i ! j = 0) [0..<length m]) [0..<length m]"

definition diag :: "mat \<Rightarrow> vec" where
  "diag m = map (\<lambda>i. m ! i ! i) [0..<length m]"

definition eig_diag :: "mat \<Rightarrow> error + vec \<times> mat" where
  "eig_diag m = (if is_diag m then Inr (diag m, eye (length m)) else Inl LinAlgError)"

definition solve_diag :: "mat \<Rightarrow> vec \<Rightarrow> error + vec" where
  "solve_diag m x =
     (if is_diag m \<and> length x = length m \<and> list_all (\<lambda>d. d \<noteq> 0) (diag m)
      then Inr (map2 (\<lambda>b d. b / d) x (diag m))
      else Inl LinAlgError)"

definition pdf_diag :: "vec \<Rightarrow> mat \<Rightarrow> error + real" where
  "pdf_diag x m =
     (if is_diag m \<and> length x = length m \<and> list_all (\<lambda>d. 0 < d) (diag m)
      then Inr (prod_list (map2 (\<lambda>b d. exp (- (b * b) / (2 * d)) / sqrt (2 * pi * d)) x (diag m)))
      else Inl ValueError)"

definition np_ref :: numpy where
  "np_ref = \<lparr>linalg_qr = qr_gram_schmidt, linalg_eig = eig_diag,
             linalg_solve = solve_diag, mvn_pdf = pdf_diag\<rparr>"

subsection \<open>Constants of the worked runs\<close>

text \<open>
  For the run with \<open>C = diag(1, 4, 1)\<close>: the radius, the scenario array, the constant
  factor of the normal density and the density of the central scenario. For the run with
  \<open>q = 1\<close>: the density of the central scenario.
\<close>

definition r_D :: real where
  "r_D = sqrt (- 2 * ln (1 / 10) / (13 / 16))"

definition ar_D :: mat where
  "ar_D = mat_mul (mat_T [[1, 0, 0], [0, 1, 0], [0, 0, 1]])
      (replicate (nat (3 + 1)) 1 #
       map2 (#) [0, 0] (map2 (\<lambda>a. map (\<lambda>x. r_D * x + a)) [0, 0]
          [[1, - (1 / 2), - (1 / 2)], [0, sqrt 3 / 2, - (sqrt 3 / 2)]]))"

definition K_D :: real where
  "K_D = 1 / (sqrt (2 * pi) * (sqrt (8 * pi) * sqrt (2 * pi)))"

definition k_D :: real where
  "k_D = exp (- (1 / 2)) * K_D"

definition k_q1 :: real where
  "k_q1 = exp (- (9 / 50)) / sqrt (2 * pi) * (exp (- (8 / 25)) / sqrt (2 * pi))"

section \<open>Properties\<close>

subsection \<open>Entries of the array operations\<close>

lemma dot_nth: "length x = length y \<Longrightarrow> dot x y = (\<Sum>k<length x. x ! k * y ! k)"
proof -
  assume l: "length x = length y"
  have "dot x y = (\<Sum>k<length (map2 (*) x y). map2 (*) x y ! k)"
    unfolding dot_def by (simp add: sum_list_sum_nth atLeast0LessThan)
  also have "\<dots> = (\<Sum>k<length x. x ! k * y ! k)"
    using l by simp
  finally show ?thesis .
qed

lemma is_mat_length: "is_mat r c m \<Longrightarrow> length m = r"
  by (simp add: is_mat_def)

lemma is_mat_row: "is_mat r c m \<Longrightarrow> i < r \<Longrightarrow> length (m ! i) = c"
  by (auto simp: is_mat_def list_all_length)

lemma is_matI: "length m = r \<Longrightarrow> (\<And>i. i < r \<Longrightarrow> length (m ! i) = c) \<Longrightarrow> is_mat r c m"
  by (auto simp: is_mat_def list_all_length)

lemma is_mat_ncols: "is_mat r c m \<Longrightarrow> 0 < r \<Longrightarrow> ncols m = c"
  by (cases m) (auto simp: is_mat_def ncols_def)

lemma ncols_nth0: "m \<noteq> [] \<Longrightarrow> ncols m = length (m ! 0)"
  by (cases m) (auto simp: ncols_def)

lemma col_length [simp]: "length (col m j) = length m"
  by (simp add: col_def)

lemma col_nth: "i < length m \<Longrightarrow> col m j ! i = m ! i ! j"
  by (simp add: col_def)

lemma mat_T_is_mat: "is_mat r c m \<Longrightarrow> 0 < r \<Longrightarrow> is_mat c r (mat_T m)"
  by (rule is_matI) (simp_all add: mat_T_def is_mat_ncols is_mat_length)

lemma mat_T_nth: "is_mat r c m \<Longrightarrow> 0 < r \<Longrightarrow> j < c \<Longrightarrow> mat_T m ! j = col m j"
  by (simp add: mat_T_def is_mat_ncols)

lemma col_mat_T: 
  assumes "is_mat r c m" "i < r"
  shows "col (mat_T m) i = m ! i"
proof (rule nth_equalityI)
  have r: "0 < r" using assms by simp
  show "length (col (mat_T m) i) = length (m ! i)"
    using assms r by (simp add: is_mat_row is_mat_length[OF mat_T_is_mat])
  fix j assume "j < length (col (mat_T m) i)"
  then have j: "j < c" using assms r by (simp add: is_mat_length[OF mat_T_is_mat])
  then show "col (mat_T m) i ! j = m ! i ! j"
    using assms r by (simp add: col_nth is_mat_length[OF mat_T_is_mat] mat_T_nth is_mat_length)
qed

lemma mat_mul_length [simp]: "length (mat_mul a b) = length a"
  by (simp add: mat_mul_def)

lemma mat_mul_nth: "i < length a \<Longrightarrow> j < ncols b \<Longrightarrow> mat_mul a b ! i ! j = dot (a ! i) (col b j)"
  by (simp add: mat_mul_def)

lemma mat_mul_row_length: "i < length a \<Longrightarrow> length (mat_mul a b ! i) = ncols b"
  by (simp add: mat_mul_def)

lemma eye_is_mat: "is_mat n n (eye n)"
  by (rule is_matI) (simp_all add: eye_def)

lemma eye_nth: "i < n \<Longrightarrow> j < n \<Longrightarrow> eye n ! i ! j = (if i = j then 1 else 0)"
  by (simp add: eye_def)

lemma mat_eqI:
  assumes "is_mat r c a" "is_mat r c b" "\<And>i j. i < r \<Longrightarrow> j < c \<Longrightarrow> a ! i ! j = b ! i ! j"
  shows "a = b"
proof (rule nth_equalityI)
  show "length a = length b" using assms by (simp add: is_mat_length)
  fix i assume "i < length a"
  then have i: "i < r" using assms by (simp add: is_mat_length)
  show "a ! i = b ! i"
    by (rule nth_equalityI) (use assms i in \<open>simp_all add: is_mat_row\<close>)
qed

text \<open>\<open>P \<cdot> P' = I\<close> says that the rows of \<open>P\<close> are orthonormal.\<close>

lemma gram_eye_iff:
  assumes "is_mat n n p"
  shows "mat_mul p (mat_T p) = eye n \<longleftrightarrow>
         (\<forall>i<n. \<forall>j<n. dot (p ! i) (p ! j) = (if i = j then 1 else 0))"
proof (cases "n = 0")
  case True then show ?thesis using assms by (simp add: is_mat_def mat_mul_def eye_def)
next
  case False
  then have n: "0 < n" by simp
  have T: "is_mat n n (mat_T p)" using assms n by (rule mat_T_is_mat)
  have nc: "ncols (mat_T p) = n" using T n by (rule is_mat_ncols)
  have len: "length p = n" using assms by (rule is_mat_length)
  have M: "is_mat n n (mat_mul p (mat_T p))"
    by (rule is_matI) (simp_all add: len mat_mul_row_length nc)
  have entry: "mat_mul p (mat_T p) ! i ! j = dot (p ! i) (p ! j)" if "i < n" "j < n" for i j
    using that by (simp add: mat_mul_nth len nc col_mat_T[OF assms])
  show ?thesis
  proof
    assume "mat_mul p (mat_T p) = eye n"
    then show "\<forall>i<n. \<forall>j<n. dot (p ! i) (p ! j) = (if i = j then 1 else 0)"
      using entry eye_nth by metis
  next
    assume a: "\<forall>i<n. \<forall>j<n. dot (p ! i) (p ! j) = (if i = j then 1 else 0)"
    show "mat_mul p (mat_T p) = eye n"
      by (rule mat_eqI[OF M eye_is_mat]) (use a entry in \<open>simp add: eye_nth\<close>)
  qed
qed

subsection \<open>The sign loop of \<^verbatim>\<open>p_from_w\<close>\<close>

lemma neg_col_length [simp]: "length (neg_col m j) = length m"
  by (simp add: neg_col_def)

lemma neg_col_nth: "i < length m \<Longrightarrow> neg_col m j ! i = (m ! i)[j := - (m ! i ! j)]"
  by (simp add: neg_col_def)

lemma flip_step_length [simp]: "length (flip_step j gs) = length gs"
  by (simp add: flip_step_def)

lemma flip_fold_length [simp]: "length (fold flip_step js gs) = length gs"
  by (induction js arbitrary: gs) auto

lemma flip_fold_entry:
  assumes "i < length gs" "k \<le> length (gs ! 0)"
  shows "length (fold flip_step [0..<k] gs ! i) = length (gs ! i) \<and>
         (\<forall>j < length (gs ! i). fold flip_step [0..<k] gs ! i ! j =
            (if j < k \<and> gs ! 0 ! j < 0 then - (gs ! i ! j) else gs ! i ! j))"
  using assms
proof (induction k arbitrary: i)
  case 0 then show ?case by simp
next
  case (Suc k)
  let ?G = "fold flip_step [0..<k] gs"
  have len: "length ?G = length gs" by simp
  have 0: "0 < length gs" using Suc.prems by auto
  have k: "k < length (gs ! 0)" "k \<le> length (gs ! 0)" using Suc.prems by auto
  have G0: "?G ! 0 ! k = gs ! 0 ! k"
    using Suc.IH[OF 0 k(2)] k by simp
  have Gi: "length (?G ! i) = length (gs ! i)" 
     "\<And>j. j < length (gs ! i) \<Longrightarrow> ?G ! i ! j = (if j < k \<and> gs ! 0 ! j < 0 then - (gs ! i ! j) else gs ! i ! j)"
    using Suc.IH[OF Suc.prems(1) k(2)] by auto
  have step: "fold flip_step [0..<Suc k] gs = flip_step k ?G" by simp
  have "flip_step k ?G ! i ! j =
          (if j < Suc k \<and> gs ! 0 ! j < 0 then - (gs ! i ! j) else gs ! i ! j)"
    if j: "j < length (gs ! i)" for j
  proof (cases "gs ! 0 ! k < 0")
    case True
    then have "flip_step k ?G ! i ! j = (?G ! i)[k := - (?G ! i ! k)] ! j"
      using Suc.prems(1) by (simp add: flip_step_def neg_col_nth G0)
    also have "\<dots> = (if j = k then - (?G ! i ! k) else ?G ! i ! j)"
      using j Gi(1) by (simp add: nth_list_update)
    also have "\<dots> = (if j < Suc k \<and> gs ! 0 ! j < 0 then - (gs ! i ! j) else gs ! i ! j)"
      using j True Gi(2)[of j] by (auto simp: less_Suc_eq)
    finally show ?thesis .
  next
    case False
    then have "flip_step k ?G ! i ! j = ?G ! i ! j"
      by (simp add: flip_step_def G0)
    also have "\<dots> = (if j < Suc k \<and> gs ! 0 ! j < 0 then - (gs ! i ! j) else gs ! i ! j)"
      using j False Gi(2)[of j] by (auto simp: less_Suc_eq)
    finally show ?thesis .
  qed
  moreover have "length (flip_step k ?G ! i) = length (gs ! i)"
    using Suc.prems(1) Gi(1) by (simp add: flip_step_def neg_col_nth)
  ultimately show ?case
    unfolding step by blast
qed

lemma flip_columns_length [simp]: "length (flip_columns gs) = length gs"
  by (simp add: flip_columns_def)

lemma flip_columns_entry:
  assumes "is_mat r c gs" "i < r" "j < c"
  shows "flip_columns gs ! i ! j = (if gs ! 0 ! j < 0 then - (gs ! i ! j) else gs ! i ! j)"
proof -
  have r: "0 < r" using assms by simp
  have nc: "ncols gs = c" using assms(1) r by (rule is_mat_ncols)
  have "c \<le> length (gs ! 0)" using assms(1) r by (simp add: is_mat_row)
  moreover have "i < length gs" using assms by (simp add: is_mat_length)
  moreover have "j < length (gs ! i)" using assms by (simp add: is_mat_row)
  ultimately show ?thesis
    using flip_fold_entry[of i gs c] assms(3) by (simp add: flip_columns_def nc)
qed

lemma flip_columns_is_mat:
  assumes "is_mat r c gs"
  shows "is_mat r c (flip_columns gs)"
proof (cases "r = 0")
  case True then show ?thesis using assms by (simp add: is_mat_def flip_columns_def ncols_def)
next
  case False
  then have r: "0 < r" by simp
  have nc: "ncols gs = c" using assms r by (rule is_mat_ncols)
  show ?thesis
  proof (rule is_matI)
    show "length (flip_columns gs) = r" using assms by (simp add: is_mat_length)
    fix i assume i: "i < r"
    have "c \<le> length (gs ! 0)" using assms r by (simp add: is_mat_row)
    moreover have "i < length gs" using assms i by (simp add: is_mat_length)
    ultimately show "length (flip_columns gs ! i) = c"
      using flip_fold_entry[of i gs c] assms i by (simp add: flip_columns_def nc is_mat_row)
  qed
qed

lemma flip_columns_row0:
  assumes "gs \<noteq> []" "j < ncols gs"
  shows "flip_columns gs ! 0 ! j = \<bar>gs ! 0 ! j\<bar>"
proof -
  have "ncols gs = length (gs ! 0)" using assms(1) by (rule ncols_nth0)
  then show ?thesis
    using flip_fold_entry[of 0 gs "ncols gs"] assms by (simp add: flip_columns_def)
qed

lemma flip_columns_ncols: "ncols (flip_columns gs) = ncols gs"
proof (cases "gs = []")
  case True then show ?thesis by (simp add: flip_columns_def ncols_def)
next
  case False
  then have "flip_columns gs \<noteq> []" by (metis flip_columns_length length_0_conv)
  then show ?thesis
    using False flip_fold_entry[of 0 gs "ncols gs"] 
    by (simp add: ncols_nth0 flip_columns_def)
qed

lemma flip_dot:
  assumes "is_mat r c gs" "i < r" "k < r"
  shows "dot (flip_columns gs ! i) (flip_columns gs ! k) = dot (gs ! i) (gs ! k)"
proof -
  have F: "is_mat r c (flip_columns gs)" using assms(1) by (rule flip_columns_is_mat)
  have "dot (flip_columns gs ! i) (flip_columns gs ! k)
        = (\<Sum>j<c. flip_columns gs ! i ! j * flip_columns gs ! k ! j)"
    using F assms by (simp add: dot_nth is_mat_row)
  also have "\<dots> = (\<Sum>j<c. gs ! i ! j * gs ! k ! j)"
    by (rule sum.cong) (use assms in \<open>simp_all add: flip_columns_entry[OF assms(1)]\<close>)
  also have "\<dots> = dot (gs ! i) (gs ! k)"
    using assms by (simp add: dot_nth is_mat_row)
  finally show ?thesis .
qed

lemma nonzero_Nil_iff: "nonzero b = [] \<longleftrightarrow> (\<forall>x\<in>set b. \<not> x)"
  by (auto simp: nonzero_def filter_empty_conv in_set_conv_nth)

lemma nonzero_hd:
  assumes "nonzero b = j0 # js"
  shows "j0 < length b \<and> b ! j0 \<and> (\<forall>j<j0. \<not> b ! j)"
proof -
  have "j0 \<in> set (nonzero b)" using assms by simp
  then have 1: "j0 < length b" "b ! j0" by (auto simp: nonzero_def)
  have "sorted (nonzero b)" unfolding nonzero_def by (rule sorted_wrt_filter) simp
  then have le: "\<forall>k\<in>set (nonzero b). j0 \<le> k" using assms by auto
  have "\<not> b ! j" if "j < j0" for j
  proof
    assume "b ! j"
    then have "j \<in> set (nonzero b)" using that 1 by (auto simp: nonzero_def)
    then show False using le that by auto
  qed
  then show ?thesis using 1 by blast
qed

lemma mat_T_mat_T:
  assumes "is_mat r c m" "0 < r" "0 < c"
  shows "mat_T (mat_T m) = m"
proof -
  have T: "is_mat c r (mat_T m)" using assms(1,2) by (rule mat_T_is_mat)
  have TT: "is_mat r c (mat_T (mat_T m))" using T assms(3) by (rule mat_T_is_mat)
  show ?thesis
  proof (rule mat_eqI[OF TT assms(1)])
    fix i j assume ij: "i < r" "j < c"
    have "mat_T (mat_T m) ! i ! j = col (mat_T m) i ! j"
      using T assms(3) ij by (simp add: mat_T_nth)
    also have "\<dots> = m ! i ! j" using assms(1) ij by (simp add: col_mat_T)
    finally show "mat_T (mat_T m) ! i ! j = m ! i ! j" .
  qed
qed

lemma j0_of_Inr:
  assumes "j0_of w = Inr j0"
  shows "j0 < length w" "1 / 100000 < \<bar>w ! j0\<bar>" "\<And>j. j < j0 \<Longrightarrow> \<bar>w ! j\<bar> \<le> 1 / 100000"
proof -
  obtain js where nz: "nonzero (map (\<lambda>x. \<bar>x\<bar> > 1 / 100000) w) = j0 # js"
    using assms by (auto simp: j0_of_def split: list.splits)
  note h = nonzero_hd[OF nz]
  show 1: "j0 < length w" using h by simp
  show "1 / 100000 < \<bar>w ! j0\<bar>" using h 1 by simp
  fix j assume j: "j < j0"
  then have "\<not> map (\<lambda>x. \<bar>x\<bar> > 1 / 100000) w ! j" using h by blast
  then show "\<bar>w ! j\<bar> \<le> 1 / 100000" using j 1 by (simp add: not_less)
qed

lemma j0_of_Inl_iff: "(\<exists>e. j0_of w = Inl e) \<longleftrightarrow> (\<forall>x\<in>set w. \<bar>x\<bar> \<le> 1 / 100000)"
proof -
  have "nonzero (map (\<lambda>x. \<bar>x\<bar> > 1 / 100000) w) = [] \<longleftrightarrow> (\<forall>x\<in>set w. \<bar>x\<bar> \<le> 1 / 100000)"
    unfolding nonzero_Nil_iff by (auto simp: not_less)
  then show ?thesis by (auto simp: j0_of_def split: list.splits)
qed

lemma j0_of_error: "j0_of w = Inl e \<Longrightarrow> e = IndexError"
  by (auto simp: j0_of_def split: list.splits)

lemma dot_self_ge:
  assumes "j < length w"
  shows "(w ! j)\<^sup>2 \<le> dot w w"
proof -
  have "(w ! j)\<^sup>2 = (\<lambda>k. w ! k * w ! k) j" by (simp add: power2_eq_square)
  also have "\<dots> \<le> (\<Sum>k<length w. w ! k * w ! k)"
    by (rule member_le_sum) (use assms in auto)
  finally show ?thesis by (simp add: dot_nth)
qed

lemma norm_v_pos:
  assumes "j0_of w = Inr j0"
  shows "0 < norm_v w"
proof -
  have "0 < (w ! j0)\<^sup>2" using j0_of_Inr(2)[OF assms] by auto
  also have "\<dots> \<le> dot w w" using j0_of_Inr(1)[OF assms] by (rule dot_self_ge)
  finally show ?thesis by (simp add: norm_v_def)
qed

subsection \<open>Claims about \<^verbatim>\<open>p_from_w\<close>\<close>

text \<open>
  Claim C8, as amended. The notebook defines no exception of its own. When no
  component of \<open>w\<close> has absolute value above \<open>1e-5\<close>, \<^verbatim>\<open>p_from_w\<close> fails with the
  \<^verbatim>\<open>IndexError\<close> of numpy: the array of indices is empty and \<^verbatim>\<open>[0][0]\<close> raises (for the
  empty \<open>w\<close>, \<^verbatim>\<open>p[0, :] = ...\<close> has raised before). When some component has absolute value
  above \<open>1e-5\<close>, \<^verbatim>\<open>p_from_w\<close> raises nothing and returns a matrix. Both hold for
  every factorisation \<open>qr\<close>.
\<close>

theorem p_from_w_degenerate:
  "((\<forall>x\<in>set w. \<bar>x\<bar> \<le> 1 / 100000) \<longrightarrow> p_from_w qr w = Inl IndexError) \<and>
   ((\<exists>x\<in>set w. 1 / 100000 < \<bar>x\<bar>) \<longrightarrow> (\<exists>P. p_from_w qr w = Inr P))"
proof (intro conjI impI)
  assume "\<forall>x\<in>set w. \<bar>x\<bar> \<le> 1 / 100000"
  then obtain e where "j0_of w = Inl e" using j0_of_Inl_iff by blast
  then show "p_from_w qr w = Inl IndexError"
    using j0_of_error by (auto simp: p_from_w_def)
next
  assume a: "\<exists>x\<in>set w. 1 / 100000 < \<bar>x\<bar>"
  then have "\<not> (\<exists>e. j0_of w = Inl e)" unfolding j0_of_Inl_iff by (auto simp: not_le)
  then obtain j0 where "j0_of w = Inr j0" by (cases "j0_of w") auto
  moreover have "length w \<noteq> 0" using a by auto
  ultimately show "\<exists>P. p_from_w qr w = Inr P" by (simp add: p_from_w_def)
qed

theorem p_from_w_degenerate_witness:
  "p_from_w qr_gram_schmidt [0, 1 / 200000] = Inl IndexError \<and>
   (\<exists>P. p_from_w qr_gram_schmidt [3, - 4] = Inr P)"
  using p_from_w_degenerate [of "[0, 1 / 200000]" qr_gram_schmidt]
        p_from_w_degenerate [of "[3, - 4]" qr_gram_schmidt]
  by simp

text \<open>
  Claim C8 as stated fails: on the degenerate \<open>w = [0, 0]\<close> the failure is not a
  dedicated error but the \<^verbatim>\<open>IndexError\<close> of indexing an empty array, the exception
  that the empty \<open>w\<close> raises as well, at another line.
\<close>

theorem p_from_w_degenerate_index_error:
  "(\<forall>qr. p_from_w qr [0, 0] = Inl IndexError) \<and> (\<forall>qr. p_from_w qr [] = Inl IndexError)"
  by (simp add: p_from_w_def j0_of_def nonzero_def)

text \<open>
  Claim C10. Every entry of row 0 of the matrix returned by \<^verbatim>\<open>p_from_w\<close> is
  non-negative, whatever the factorisation returned; so row 0 can equal \<open>w / \<parallel>w\<parallel>\<close>
  only when no component of \<open>w\<close> is negative.
\<close>

theorem p_from_w_row0_nonneg:
  assumes "p_from_w qr w = Inr P" and "P \<noteq> []"
  shows "(\<forall>x\<in>set (P ! 0). 0 \<le> x) \<and>
         (P ! 0 = map (\<lambda>x. x / norm_v w) w \<longrightarrow> (\<forall>x\<in>set w. 0 \<le> x))"
proof -
  obtain j0 where j0: "j0_of w = Inr j0"
    and P: "P = flip_columns (gram_schmidt_rows qr (p_start w j0))"
    using assms(1) by (auto simp: p_from_w_def split: if_splits sum.splits)
  define gs where "gs = gram_schmidt_rows qr (p_start w j0)"
  have gs: "gs \<noteq> []" using assms(2) P unfolding gs_def
    by (metis flip_columns_length length_0_conv)
  have len0: "length (P ! 0) = ncols gs"
    using flip_columns_ncols[of gs] assms(2) P by (simp add: ncols_nth0 gs_def)
  have nonneg: "\<forall>x\<in>set (P ! 0). 0 \<le> x"
  proof
    fix x assume "x \<in> set (P ! 0)"
    then obtain j where j: "j < ncols gs" "x = P ! 0 ! j"
      using len0 by (auto simp: in_set_conv_nth)
    then show "0 \<le> x" using flip_columns_row0[OF gs j(1)] P by (simp add: gs_def)
  qed
  have "\<forall>x\<in>set w. 0 \<le> x" if eq: "P ! 0 = map (\<lambda>x. x / norm_v w) w"
  proof
    fix x assume "x \<in> set w"
    then have "x / norm_v w \<in> set (P ! 0)" unfolding eq by auto
    then have "0 \<le> x / norm_v w" using nonneg by blast
    then show "0 \<le> x" using norm_v_pos[OF j0] by (simp add: zero_le_divide_iff)
  qed
  then show ?thesis using nonneg by blast
qed

text \<open>Unfolding the model on a concrete input.\<close>

lemmas ev = p_from_w_def j0_of_def nonzero_def p_start_def zeros_def set_entry_def gram_schmidt_rows_def
  mat_T_def ncols_def col_def qr_gram_schmidt_def Let_def vsub_proj_def dot_def norm_v_def
  flip_columns_def flip_step_def neg_col_def

lemma p_from_w_3_4: "p_from_w qr_gram_schmidt [3, 4] = Inr [[3 / 5, 4 / 5], [- (4 / 5), 3 / 5]]"
  by (simp add: ev upt_rec numeral_2_eq_2 real_sqrt_divide)

theorem p_from_w_row0_nonneg_witness:
  "p_from_w qr_gram_schmidt [3, 4] = Inr [[3 / 5, 4 / 5], [- (4 / 5), 3 / 5]] \<and>
   list_all (\<lambda>x. 0 \<le> x) ([[3 / 5, 4 / 5], [- (4 / 5), 3 / 5 :: real]] ! 0) \<and>
   [[3 / 5, 4 / 5], [- (4 / 5), 3 / 5]] ! 0 = map (\<lambda>x. x / norm_v [3, 4]) [3, 4] \<and>
   list_all (\<lambda>x. 0 \<le> x) [3, 4 :: real]"
  using p_from_w_row0_nonneg [OF p_from_w_3_4] p_from_w_3_4
  by (simp add: norm_v_def dot_def)

text \<open>
  Claim C5. For a weight vector that \<^verbatim>\<open>p_from_w\<close> accepts, and a factor \<open>q\<close> with
  orthonormal columns as numpy documents it, the returned matrix \<open>P\<close> satisfies
  \<open>P \<cdot> P' = I\<close>: negating whole columns leaves every product of two rows unchanged.
\<close>

theorem p_from_w_orthonormal:
  assumes "j0_of w = Inr j0"
      and "orthonormal_cols (length w) (qr (mat_T (p_start w j0)))"
  shows "\<exists>P. p_from_w qr w = Inr P \<and> is_mat (length w) (length w) P \<and>
             mat_mul P (mat_T P) = eye (length w)"
proof -
  define n where "n = length w"
  define Q where "Q = qr (mat_T (p_start w j0))"
  define gs where "gs = mat_T Q"
  have n: "0 < n" using j0_of_Inr(1)[OF assms(1)] by (auto simp: n_def)
  have Q: "is_mat n n Q" and QQ: "mat_mul (mat_T Q) Q = eye n"
    using assms(2) by (simp_all add: orthonormal_cols_def Q_def n_def)
  have gs: "is_mat n n gs" unfolding gs_def using Q n by (rule mat_T_is_mat)
  have "mat_mul gs (mat_T gs) = eye n"
    using QQ mat_T_mat_T[OF Q n n] by (simp add: gs_def)
  then have orth: "\<forall>i<n. \<forall>k<n. dot (gs ! i) (gs ! k) = (if i = k then 1 else 0)"
    using gram_eye_iff[OF gs] by simp
  define P where "P = flip_columns gs"
  have P: "is_mat n n P" unfolding P_def using gs by (rule flip_columns_is_mat)
  have "\<forall>i<n. \<forall>k<n. dot (P ! i) (P ! k) = (if i = k then 1 else 0)"
    using orth flip_dot[OF gs] by (simp add: P_def)
  then have "mat_mul P (mat_T P) = eye n" using gram_eye_iff[OF P] by simp
  moreover have "p_from_w qr w = Inr P"
    using assms(1) n by (auto simp: p_from_w_def P_def gs_def Q_def gram_schmidt_rows_def n_def)
  ultimately show ?thesis using P unfolding n_def by blast
qed

lemma j0_of_3_m4: "j0_of [3, - 4] = Inr 0"
  by (simp add: j0_of_def nonzero_def upt_rec numeral_2_eq_2)

lemma qr_3_m4: "qr_gram_schmidt (mat_T (p_start [3, - 4] 0)) = [[3 / 5, 4 / 5], [- (4 / 5), 3 / 5]]"
  by (simp add: ev upt_rec numeral_2_eq_2 real_sqrt_divide)

lemma orthonormal_cols_3_m4:
  "orthonormal_cols (length [3, - 4 :: real]) (qr_gram_schmidt (mat_T (p_start [3, - 4] 0)))"
  unfolding qr_3_m4
  by (simp add: orthonormal_cols_def is_mat_def mat_mul_def mat_T_def ncols_def col_def dot_def eye_def
      upt_rec numeral_2_eq_2)

theorem p_from_w_orthonormal_witness:
  "\<exists>P. p_from_w qr_gram_schmidt [3, - 4] = Inr P \<and> is_mat 2 2 P \<and> mat_mul P (mat_T P) = eye 2"
  using p_from_w_orthonormal [of "[3, - 4]" 0 qr_gram_schmidt, OF j0_of_3_m4 orthonormal_cols_3_m4]
  by (simp add: numeral_2_eq_2)

subsection \<open>The reference routines on concrete inputs\<close>

lemma gs_orth_step:
  "fold (vsub_proj a) qs a = v \<Longrightarrow> map (\<lambda>x. x / norm_v v) v = q \<Longrightarrow>
   gs_orth qs (a # as) = gs_orth (qs @ [q]) as"
  by (simp add: Let_def)

lemma sqrt_2_3: "sqrt (2 / 3) = sqrt 6 / 3"
proof -
  have "sqrt (2 / 3) = sqrt (6 / 9)" by simp
  also have "\<dots> = sqrt 6 / 3" by (simp only: real_sqrt_divide) simp
  finally show ?thesis .
qed

lemma sqrt_1_2: "sqrt (1 / 2) = sqrt 2 / 2"
proof -
  have "sqrt (1 / 2) = sqrt (2 / 4)" by simp
  also have "\<dots> = sqrt 2 / 2" by (simp only: real_sqrt_divide) simp
  finally show ?thesis .
qed

lemma sqrt_3_2: "sqrt (3 / 2) = sqrt 6 / 2"
proof -
  have "sqrt (3 / 2) = sqrt (6 / 4)" by simp
  also have "\<dots> = sqrt 6 / 2" by (simp only: real_sqrt_divide) simp
  finally show ?thesis .
qed

lemma sqrt_6: "sqrt 6 = sqrt 2 * sqrt 3"
  by (simp add: real_sqrt_mult[symmetric])

lemma inv_sqrt_3: "1 / sqrt 3 = sqrt 3 / 3"
  by (simp add: field_simps)

lemma gs3_1: "map (\<lambda>x. x / norm_v [1, 1, 1]) [1, 1, 1] = [sqrt 3 / 3, sqrt 3 / 3, sqrt 3 / 3]"
  by (simp add: norm_v_def dot_def inv_sqrt_3)

lemma gs3_2a: "fold (vsub_proj [0, 1, 0]) [[sqrt 3 / 3, sqrt 3 / 3, sqrt 3 / 3]] [0, 1, 0]
   = [- (1 / 3), 2 / 3, - (1 / 3)]"
  by (simp add: vsub_proj_def dot_def)

lemma gs3_2b: "map (\<lambda>x. x / norm_v [- (1 / 3), 2 / 3, - (1 / 3)]) [- (1 / 3), 2 / 3, - (1 / 3)]
   = [- (sqrt 6 / 6), sqrt 6 / 3, - (sqrt 6 / 6)]"
proof -
  have "norm_v [- (1 / 3), 2 / 3, - (1 / 3)] = sqrt 6 / 3"
    by (simp add: norm_v_def dot_def sqrt_2_3)
  then show ?thesis by (simp add: field_simps)
qed

lemma gs3_3a: "fold (vsub_proj [0, 0, 1])
    [[sqrt 3 / 3, sqrt 3 / 3, sqrt 3 / 3], [- (sqrt 6 / 6), sqrt 6 / 3, - (sqrt 6 / 6)]] [0, 0, 1]
   = [- (1 / 2), 0, 1 / 2]"
  by (simp add: vsub_proj_def dot_def)

lemma gs3_3b: "map (\<lambda>x. x / norm_v [- (1 / 2), 0, 1 / 2]) [- (1 / 2), 0, 1 / 2]
   = [- (sqrt 2 / 2), 0, sqrt 2 / 2]"
proof -
  have "norm_v [- (1 / 2), 0, 1 / 2] = sqrt 2 / 2"
    by (simp add: norm_v_def dot_def sqrt_1_2)
  then show ?thesis by (simp add: field_simps)
qed

lemma gs3: "gs_orth [] [[1, 1, 1], [0, 1, 0], [0, 0, 1]] =
   [[sqrt 3 / 3, sqrt 3 / 3, sqrt 3 / 3],
    [- (sqrt 6 / 6), sqrt 6 / 3, - (sqrt 6 / 6)],
    [- (sqrt 2 / 2), 0, sqrt 2 / 2]]"
proof -
  have 1: "gs_orth [] [[1, 1, 1], [0, 1, 0], [0, 0, 1]]
        = gs_orth ([] @ [[sqrt 3 / 3, sqrt 3 / 3, sqrt 3 / 3]]) [[0, 1, 0], [0, 0, 1]]"
    by (rule gs_orth_step[OF _ gs3_1]) simp
  have 2: "gs_orth [[sqrt 3 / 3, sqrt 3 / 3, sqrt 3 / 3]] [[0, 1, 0], [0, 0, 1]]
        = gs_orth ([[sqrt 3 / 3, sqrt 3 / 3, sqrt 3 / 3]] @
            [[- (sqrt 6 / 6), sqrt 6 / 3, - (sqrt 6 / 6)]]) [[0, 0, 1]]"
    by (rule gs_orth_step[OF gs3_2a gs3_2b])
  have 3: "gs_orth [[sqrt 3 / 3, sqrt 3 / 3, sqrt 3 / 3],
                    [- (sqrt 6 / 6), sqrt 6 / 3, - (sqrt 6 / 6)]] [[0, 0, 1]]
        = gs_orth ([[sqrt 3 / 3, sqrt 3 / 3, sqrt 3 / 3],
                    [- (sqrt 6 / 6), sqrt 6 / 3, - (sqrt 6 / 6)]] @
            [[- (sqrt 2 / 2), 0, sqrt 2 / 2]]) []"
    by (rule gs_orth_step[OF gs3_3a gs3_3b])
  show ?thesis
    unfolding 1 append.simps 2 3 by (simp only: gs_orth.simps(1))
qed

lemma simplex_3: "standard_simplex_vertices qr_gram_schmidt 3 =
   Inr [[1, - (1 / 2), - (1 / 2)], [0, sqrt 3 / 2, - (sqrt 3 / 2)]]"
proof -
  have a: "simplex_start 3 = [[1, 1, 1], [0, 1, 0], [0, 0, 1]]"
    by (simp add: simplex_start_def eye_def upt_rec numeral_3_eq_3)
  have TT: "mat_T (mat_T [[1, 1, 1], [0, 1, 0], [0, 0, 1]]) = [[1, 1, 1], [0, 1, 0], [0, 0, 1 :: real]]"
    by (simp add: mat_T_def col_def ncols_def upt_rec numeral_3_eq_3)
  have p: "gram_schmidt_rows qr_gram_schmidt [[1, 1, 1], [0, 1, 0], [0, 0, 1]] =
     [[sqrt 3 / 3, sqrt 3 / 3, sqrt 3 / 3],
      [- (sqrt 6 / 6), sqrt 6 / 3, - (sqrt 6 / 6)],
      [- (sqrt 2 / 2), 0, sqrt 2 / 2]]"
    unfolding gram_schmidt_rows_def qr_gram_schmidt_def TT gs3
    by (simp add: mat_T_def col_def ncols_def upt_rec numeral_3_eq_3)
  have n: "nat 3 = 3" by simp
  show ?thesis
    unfolding standard_simplex_vertices_def Let_def n a p
    apply (simp add: eye_def mat_mul_def col_def ncols_def dot_def upt_rec numeral_3_eq_3 sqrt_3_2)
    apply (simp add: sqrt_6)
    done
qed

subsection \<open>Running the main procedure\<close>

lemma comp_scenarios_eval:
  assumes "is_mat (length w) (length w) c"
    and "p_from_w (linalg_qr np) w = Inr p"
    and "mat_vec p (map (\<lambda>x. L * x / dot w (mat_vec c w)) (mat_vec c w)) ! 0 = first_comp"
    and "mat_mul p (mat_mul c (mat_T p)) = dy"
    and "map (\<lambda>x. L * x / (dy ! 0 ! 0) / norm_v w) (map (\<lambda>r. r ! 0) (tl dy)) = ahy"
    and "map2 (map2 (\<lambda>x y. x - y / (dy ! 0 ! 0))) (map tl (tl dy))
           (map (\<lambda>a. map (\<lambda>b. a * b) (map (\<lambda>r. r ! 0) (tl dy))) (map (\<lambda>r. r ! 0) (tl dy))) = dyh"
    and "linalg_eig np dyh = Inr (vals, vect)"
    and "map (\<lambda>r. map (\<lambda>j. r ! j) (rev (argsort vals))) vect = V"
    and "standard_simplex_vertices (linalg_qr np) M = Inr t"
    and "ncols (map (take (nat (M - 1))) V) = length t"
    and "mat_mul (map (take (nat (M - 1))) V) t = z"
    and "quadratic_form_inv (linalg_solve np) dyh (map last z) = Inr denom"
    and "mat_mul (mat_T p) (replicate (nat (M + 1)) first_comp #
           map2 (#) ahy (map2 (\<lambda>a. map (\<lambda>x. sqrt (- 2 * ln q / denom) * x + a)) ahy z)) = ar"
    and "collect (map (\<lambda>j. mvn_pdf np (col ar j) c) [0..<nat (M + 1)]) = Inr lik"
  shows "comp_scenarios np c w L q M = Inr (ar, map (\<lambda>l. l / lik ! 0) lik)"
  unfolding comp_scenarios_def dy_of_def dyh_of_def v_of_def Let_def
  by (simp only: assms simp_thms if_False if_True sum.case prod.case)

lemmas mat_ev = mat_mul_def mat_T_def mat_vec_def col_def ncols_def dot_def is_mat_def

lemma p_from_w_3_m4: "p_from_w qr_gram_schmidt [3, - 4] = Inr [[3 / 5, 4 / 5], [4 / 5, - (3 / 5)]]"
  by (simp add: ev upt_rec numeral_2_eq_2 real_sqrt_divide)

lemma np_ref_sel [simp]:
  "linalg_qr np_ref = qr_gram_schmidt" "linalg_eig np_ref = eig_diag"
  "linalg_solve np_ref = solve_diag" "mvn_pdf np_ref = pdf_diag"
  by (simp_all add: np_ref_def)

lemma simplex_2: "standard_simplex_vertices qr_gram_schmidt 2 = Inr [[1, - 1]]"
  by (simp add: ev standard_simplex_vertices_def simplex_start_def eye_def mat_mul_def upt_rec
      numeral_2_eq_2 real_sqrt_divide)

lemma eig_diag_1: "eig_diag [[a]] = Inr ([a], [[1]])"
  by (simp add: eig_diag_def is_diag_def is_mat_def diag_def eye_def)

lemma argsort_1: "argsort [a] = [0]"
  by (simp add: argsort_def)

lemma solve_diag_1: "a \<noteq> 0 \<Longrightarrow> quadratic_form_inv solve_diag [[a]] [x] = Inr (x * (x / a))"
  by (simp add: quadratic_form_inv_def solve_diag_def is_diag_def is_mat_def diag_def dot_def)

lemma pdf_diag_2: "0 < a \<Longrightarrow> 0 < b \<Longrightarrow> pdf_diag [x, y] [[a, 0], [0, b]] =
   Inr (exp (- (x * x) / (2 * a)) / sqrt (2 * pi * a) * (exp (- (y * y) / (2 * b)) / sqrt (2 * pi * b)))"
  by (simp add: pdf_diag_def is_diag_def is_mat_def diag_def upt_rec numeral_2_eq_2)

lemma run_mixed:
  "\<exists>ar lik. comp_scenarios np_ref [[1, 0], [0, 1]] [3, - 4] 125 (1 / 10) 2 = Inr (ar, lik) \<and> length lik = 3 \<and>
     col ar 0 = [- (21 / 5), - (28 / 5)]"
proof -
  define ar :: mat where "ar = mat_mul (mat_T [[3 / 5, 4 / 5], [4 / 5, - (3 / 5)]])
      (replicate (nat (2 + 1)) (- 7) #
       map2 (#) [0] (map2 (\<lambda>a. map (\<lambda>x. sqrt (- 2 * ln (1 / 10) / (1)) * x + a)) [0] [[1, - 1]]))"
  have shape: "length ar = 2 \<and> length (ar ! 0) = 3 \<and> length (ar ! 1) = 3"
    unfolding ar_def by (simp add: mat_ev upt_rec numeral_2_eq_2 numeral_3_eq_3)
  have col0: "col ar 0 = [- (21 / 5), - (28 / 5)]"
    unfolding ar_def by (simp add: mat_ev upt_rec numeral_2_eq_2 numeral_3_eq_3)
  obtain lik where lik: "collect (map (\<lambda>j. mvn_pdf np_ref (col ar j) [[1, 0], [0, 1]]) [0..<nat (2 + 1)]) = Inr lik"
    and len: "length lik = 3"
    using shape by (simp add: pdf_diag_def is_diag_def is_mat_def diag_def col_def upt_rec numeral_2_eq_2 numeral_3_eq_3)
  have "comp_scenarios np_ref [[1, 0], [0, 1]] [3, - 4] 125 (1 / 10) 2 = Inr (ar, map (\<lambda>l. l / lik ! 0) lik)"
  proof (rule comp_scenarios_eval[where p = "[[3 / 5, 4 / 5], [4 / 5, - (3 / 5)]]"
        and first_comp = "- 7" and dy = "[[1, 0], [0, 1]]" and ahy = "[0]" and dyh = "[[1]]"
        and vals = "[1]" and vect = "[[1]]" and V = "[[1]]" and t = "[[1, - 1]]" and z = "[[1, - 1]]"
        and denom = "1"])
    show "is_mat (length ([3, - 4] :: vec)) (length ([3, - 4] :: vec)) [[1, 0], [0, 1]]"
      by (simp add: is_mat_def)
    show "p_from_w (linalg_qr np_ref) [3, - 4] = Inr [[3 / 5, 4 / 5], [4 / 5, - (3 / 5)]]"
      by (simp add: ev upt_rec numeral_2_eq_2 real_sqrt_divide)
    show "mat_vec [[3 / 5, 4 / 5], [4 / 5, - (3 / 5)]]
       (map (\<lambda>x. 125 * x / dot [3, - 4] (mat_vec [[1, 0], [0, 1]] [3, - 4])) (mat_vec [[1, 0], [0, 1]] [3, - 4])) ! 0 = - 7"
      by (simp add: mat_ev)
    show dy: "mat_mul [[3 / 5, 4 / 5], [4 / 5, - (3 / 5)]] (mat_mul [[1, 0], [0, 1]] (mat_T [[3 / 5, 4 / 5], [4 / 5, - (3 / 5)]])) = [[1, 0], [0, 1]]"
      by (simp add: mat_ev upt_rec numeral_2_eq_2)
    show "map (\<lambda>x. 125 * x / ([[1, 0], [0, 1]] ! 0 ! 0) / norm_v [3, - 4]) (map (\<lambda>r. r ! 0) (tl [[1, 0], [0, 1]])) = [0]"
      by (simp add: norm_v_def dot_def)
    show "map2 (map2 (\<lambda>x y. x - y / ([[1, 0], [0, 1]] ! 0 ! 0))) (map tl (tl [[1, 0], [0, 1]]))
           (map (\<lambda>a. map (\<lambda>b. a * b) (map (\<lambda>r. r ! 0) (tl [[1, 0], [0, 1]]))) (map (\<lambda>r. r ! 0) (tl [[1, 0], [0, 1]]))) = ([[1]] :: mat)"
      by simp
    show "linalg_eig np_ref [[1]] = Inr ([1], [[1]])" by (simp add: eig_diag_1)
    show "map (\<lambda>r. map (\<lambda>j. r ! j) (rev (argsort [1]))) [[1]] = [[1::real]]" by (simp add: argsort_1)
    show "standard_simplex_vertices (linalg_qr np_ref) 2 = Inr [[1, - 1]]" by (simp add: simplex_2)
    show "ncols (map (take (nat (2 - 1))) [[1::real]]) = length [[1, - 1 :: real]]" by (simp add: ncols_def)
    show "mat_mul (map (take (nat (2 - 1))) [[1]]) [[1, - 1]] = [[1, - 1]]"
      by (simp add: mat_ev upt_rec numeral_2_eq_2)
    show "quadratic_form_inv (linalg_solve np_ref) [[1]] (map last [[1, - 1]]) = Inr (1)"
      by (simp add: solve_diag_1)
    show "mat_mul (mat_T [[3 / 5, 4 / 5], [4 / 5, - (3 / 5)]]) (replicate (nat (2 + 1)) (- 7) #
           map2 (#) [0] (map2 (\<lambda>a. map (\<lambda>x. sqrt (- 2 * ln (1 / 10) / (1)) * x + a)) [0] [[1, - 1]])) = ar"
      unfolding ar_def ..
    show "collect (map (\<lambda>j. mvn_pdf np_ref (col ar j) [[1, 0], [0, 1]]) [0..<nat (2 + 1)]) = Inr lik"
      by (rule lik)
  qed
  then show ?thesis using col0 len by simp
qed

lemma run_pos:
  "\<exists>ar lik. comp_scenarios np_ref [[2, 0], [0, 1]] [3, 4] 34 (1 / 10) 2 = Inr (ar, lik) \<and> length lik = 3 \<and>
     col ar 0 = [6, 4]"
proof -
  define ar :: mat where "ar = mat_mul (mat_T [[3 / 5, 4 / 5], [- (4 / 5), 3 / 5]])
      (replicate (nat (2 + 1)) (34 / 5) #
       map2 (#) [- (12 / 5)] (map2 (\<lambda>a. map (\<lambda>x. sqrt (- 2 * ln (1 / 10) / (17 / 25)) * x + a)) [- (12 / 5)] [[1, - 1]]))"
  have shape: "length ar = 2 \<and> length (ar ! 0) = 3 \<and> length (ar ! 1) = 3"
    unfolding ar_def by (simp add: mat_ev upt_rec numeral_2_eq_2 numeral_3_eq_3)
  have col0: "col ar 0 = [6, 4]"
    unfolding ar_def by (simp add: mat_ev upt_rec numeral_2_eq_2 numeral_3_eq_3)
  obtain lik where lik: "collect (map (\<lambda>j. mvn_pdf np_ref (col ar j) [[2, 0], [0, 1]]) [0..<nat (2 + 1)]) = Inr lik"
    and len: "length lik = 3"
    using shape by (simp add: pdf_diag_def is_diag_def is_mat_def diag_def col_def upt_rec numeral_2_eq_2 numeral_3_eq_3)
  have "comp_scenarios np_ref [[2, 0], [0, 1]] [3, 4] 34 (1 / 10) 2 = Inr (ar, map (\<lambda>l. l / lik ! 0) lik)"
  proof (rule comp_scenarios_eval[where p = "[[3 / 5, 4 / 5], [- (4 / 5), 3 / 5]]"
        and first_comp = "34 / 5" and dy = "[[34 / 25, - (12 / 25)], [- (12 / 25), 41 / 25]]" and ahy = "[- (12 / 5)]" and dyh = "[[25 / 17]]"
        and vals = "[25 / 17]" and vect = "[[1]]" and V = "[[1]]" and t = "[[1, - 1]]" and z = "[[1, - 1]]"
        and denom = "17 / 25"])
    show "is_mat (length ([3, 4] :: vec)) (length ([3, 4] :: vec)) [[2, 0], [0, 1]]"
      by (simp add: is_mat_def)
    show "p_from_w (linalg_qr np_ref) [3, 4] = Inr [[3 / 5, 4 / 5], [- (4 / 5), 3 / 5]]"
      by (simp add: ev upt_rec numeral_2_eq_2 real_sqrt_divide)
    show "mat_vec [[3 / 5, 4 / 5], [- (4 / 5), 3 / 5]]
       (map (\<lambda>x. 34 * x / dot [3, 4] (mat_vec [[2, 0], [0, 1]] [3, 4])) (mat_vec [[2, 0], [0, 1]] [3, 4])) ! 0 = 34 / 5"
      by (simp add: mat_ev)
    show dy: "mat_mul [[3 / 5, 4 / 5], [- (4 / 5), 3 / 5]] (mat_mul [[2, 0], [0, 1]] (mat_T [[3 / 5, 4 / 5], [- (4 / 5), 3 / 5]])) = [[34 / 25, - (12 / 25)], [- (12 / 25), 41 / 25]]"
      by (simp add: mat_ev upt_rec numeral_2_eq_2)
    show "map (\<lambda>x. 34 * x / ([[34 / 25, - (12 / 25)], [- (12 / 25), 41 / 25]] ! 0 ! 0) / norm_v [3, 4]) (map (\<lambda>r. r ! 0) (tl [[34 / 25, - (12 / 25)], [- (12 / 25), 41 / 25]])) = [- (12 / 5)]"
      by (simp add: norm_v_def dot_def)
    show "map2 (map2 (\<lambda>x y. x - y / ([[34 / 25, - (12 / 25)], [- (12 / 25), 41 / 25]] ! 0 ! 0))) (map tl (tl [[34 / 25, - (12 / 25)], [- (12 / 25), 41 / 25]]))
           (map (\<lambda>a. map (\<lambda>b. a * b) (map (\<lambda>r. r ! 0) (tl [[34 / 25, - (12 / 25)], [- (12 / 25), 41 / 25]]))) (map (\<lambda>r. r ! 0) (tl [[34 / 25, - (12 / 25)], [- (12 / 25), 41 / 25]]))) = ([[25 / 17]] :: mat)"
      by simp
    show "linalg_eig np_ref [[25 / 17]] = Inr ([25 / 17], [[1]])" by (simp add: eig_diag_1)
    show "map (\<lambda>r. map (\<lambda>j. r ! j) (rev (argsort [25 / 17]))) [[1]] = [[1::real]]" by (simp add: argsort_1)
    show "standard_simplex_vertices (linalg_qr np_ref) 2 = Inr [[1, - 1]]" by (simp add: simplex_2)
    show "ncols (map (take (nat (2 - 1))) [[1::real]]) = length [[1, - 1 :: real]]" by (simp add: ncols_def)
    show "mat_mul (map (take (nat (2 - 1))) [[1]]) [[1, - 1]] = [[1, - 1]]"
      by (simp add: mat_ev upt_rec numeral_2_eq_2)
    show "quadratic_form_inv (linalg_solve np_ref) [[25 / 17]] (map last [[1, - 1]]) = Inr (17 / 25)"
      by (simp add: solve_diag_1)
    show "mat_mul (mat_T [[3 / 5, 4 / 5], [- (4 / 5), 3 / 5]]) (replicate (nat (2 + 1)) (34 / 5) #
           map2 (#) [- (12 / 5)] (map2 (\<lambda>a. map (\<lambda>x. sqrt (- 2 * ln (1 / 10) / (17 / 25)) * x + a)) [- (12 / 5)] [[1, - 1]])) = ar"
      unfolding ar_def ..
    show "collect (map (\<lambda>j. mvn_pdf np_ref (col ar j) [[2, 0], [0, 1]]) [0..<nat (2 + 1)]) = Inr lik"
      by (rule lik)
  qed
  then show ?thesis using col0 len by simp
qed

lemma run_neg:
  "\<exists>ar lik. comp_scenarios np_ref [[2, 0], [0, 1]] [- 3, - 4] 34 (1 / 10) 2 = Inr (ar, lik) \<and> length lik = 3 \<and>
     col ar 0 = [- (54 / 25), - (172 / 25)]"
proof -
  define ar :: mat where "ar = mat_mul (mat_T [[3 / 5, 4 / 5], [4 / 5, - (3 / 5)]])
      (replicate (nat (2 + 1)) (- (34 / 5)) #
       map2 (#) [12 / 5] (map2 (\<lambda>a. map (\<lambda>x. sqrt (- 2 * ln (1 / 10) / (17 / 25)) * x + a)) [12 / 5] [[1, - 1]]))"
  have shape: "length ar = 2 \<and> length (ar ! 0) = 3 \<and> length (ar ! 1) = 3"
    unfolding ar_def by (simp add: mat_ev upt_rec numeral_2_eq_2 numeral_3_eq_3)
  have col0: "col ar 0 = [- (54 / 25), - (172 / 25)]"
    unfolding ar_def by (simp add: mat_ev upt_rec numeral_2_eq_2 numeral_3_eq_3)
  obtain lik where lik: "collect (map (\<lambda>j. mvn_pdf np_ref (col ar j) [[2, 0], [0, 1]]) [0..<nat (2 + 1)]) = Inr lik"
    and len: "length lik = 3"
    using shape by (simp add: pdf_diag_def is_diag_def is_mat_def diag_def col_def upt_rec numeral_2_eq_2 numeral_3_eq_3)
  have "comp_scenarios np_ref [[2, 0], [0, 1]] [- 3, - 4] 34 (1 / 10) 2 = Inr (ar, map (\<lambda>l. l / lik ! 0) lik)"
  proof (rule comp_scenarios_eval[where p = "[[3 / 5, 4 / 5], [4 / 5, - (3 / 5)]]"
        and first_comp = "- (34 / 5)" and dy = "[[34 / 25, 12 / 25], [12 / 25, 41 / 25]]" and ahy = "[12 / 5]" and dyh = "[[25 / 17]]"
        and vals = "[25 / 17]" and vect = "[[1]]" and V = "[[1]]" and t = "[[1, - 1]]" and z = "[[1, - 1]]"
        and denom = "17 / 25"])
    show "is_mat (length ([- 3, - 4] :: vec)) (length ([- 3, - 4] :: vec)) [[2, 0], [0, 1]]"
      by (simp add: is_mat_def)
    show "p_from_w (linalg_qr np_ref) [- 3, - 4] = Inr [[3 / 5, 4 / 5], [4 / 5, - (3 / 5)]]"
      by (simp add: ev upt_rec numeral_2_eq_2 real_sqrt_divide)
    show "mat_vec [[3 / 5, 4 / 5], [4 / 5, - (3 / 5)]]
       (map (\<lambda>x. 34 * x / dot [- 3, - 4] (mat_vec [[2, 0], [0, 1]] [- 3, - 4])) (mat_vec [[2, 0], [0, 1]] [- 3, - 4])) ! 0 = - (34 / 5)"
      by (simp add: mat_ev)
    show dy: "mat_mul [[3 / 5, 4 / 5], [4 / 5, - (3 / 5)]] (mat_mul [[2, 0], [0, 1]] (mat_T [[3 / 5, 4 / 5], [4 / 5, - (3 / 5)]])) = [[34 / 25, 12 / 25], [12 / 25, 41 / 25]]"
      by (simp add: mat_ev upt_rec numeral_2_eq_2)
    show "map (\<lambda>x. 34 * x / ([[34 / 25, 12 / 25], [12 / 25, 41 / 25]] ! 0 ! 0) / norm_v [- 3, - 4]) (map (\<lambda>r. r ! 0) (tl [[34 / 25, 12 / 25], [12 / 25, 41 / 25]])) = [12 / 5]"
      by (simp add: norm_v_def dot_def)
    show "map2 (map2 (\<lambda>x y. x - y / ([[34 / 25, 12 / 25], [12 / 25, 41 / 25]] ! 0 ! 0))) (map tl (tl [[34 / 25, 12 / 25], [12 / 25, 41 / 25]]))
           (map (\<lambda>a. map (\<lambda>b. a * b) (map (\<lambda>r. r ! 0) (tl [[34 / 25, 12 / 25], [12 / 25, 41 / 25]]))) (map (\<lambda>r. r ! 0) (tl [[34 / 25, 12 / 25], [12 / 25, 41 / 25]]))) = ([[25 / 17]] :: mat)"
      by simp
    show "linalg_eig np_ref [[25 / 17]] = Inr ([25 / 17], [[1]])" by (simp add: eig_diag_1)
    show "map (\<lambda>r. map (\<lambda>j. r ! j) (rev (argsort [25 / 17]))) [[1]] = [[1::real]]" by (simp add: argsort_1)
    show "standard_simplex_vertices (linalg_qr np_ref) 2 = Inr [[1, - 1]]" by (simp add: simplex_2)
    show "ncols (map (take (nat (2 - 1))) [[1::real]]) = length [[1, - 1 :: real]]" by (simp add: ncols_def)
    show "mat_mul (map (take (nat (2 - 1))) [[1]]) [[1, - 1]] = [[1, - 1]]"
      by (simp add: mat_ev upt_rec numeral_2_eq_2)
    show "quadratic_form_inv (linalg_solve np_ref) [[25 / 17]] (map last [[1, - 1]]) = Inr (17 / 25)"
      by (simp add: solve_diag_1)
    show "mat_mul (mat_T [[3 / 5, 4 / 5], [4 / 5, - (3 / 5)]]) (replicate (nat (2 + 1)) (- (34 / 5)) #
           map2 (#) [12 / 5] (map2 (\<lambda>a. map (\<lambda>x. sqrt (- 2 * ln (1 / 10) / (17 / 25)) * x + a)) [12 / 5] [[1, - 1]])) = ar"
      unfolding ar_def ..
    show "collect (map (\<lambda>j. mvn_pdf np_ref (col ar j) [[2, 0], [0, 1]]) [0..<nat (2 + 1)]) = Inr lik"
      by (rule lik)
  qed
  then show ?thesis using col0 len by simp
qed


lemma p_from_w_100: "p_from_w qr_gram_schmidt [1, 0, 0] = Inr [[1, 0, 0], [0, 1, 0], [0, 0, 1]]"
  by (simp add: ev upt_rec numeral_3_eq_3)

lemma r_D_sq: "r_D * r_D = 32 / 13 * ln 10"
proof -
  have "0 \<le> - 2 * ln (1 / 10 :: real) / (13 / 16)"
    by (simp add: ln_div)
  then have "r_D * r_D = - 2 * ln (1 / 10) / (13 / 16)"
    unfolding r_D_def by simp
  also have "\<dots> = 32 / 13 * ln 10" by (simp add: ln_div)
  finally show ?thesis .
qed

lemma ar_D: "ar_D = [[1, 1, 1, 1], [0, r_D, - (r_D / 2), - (r_D / 2)],
                     [0, 0, r_D * sqrt 3 / 2, - (r_D * sqrt 3 / 2)]]"
  unfolding ar_D_def by (simp add: mat_ev upt_rec numeral_3_eq_3 eval_nat_numeral)

lemma pdf_diag_3: "0 < a \<Longrightarrow> 0 < b \<Longrightarrow> 0 < c \<Longrightarrow> pdf_diag [x, y, z] [[a, 0, 0], [0, b, 0], [0, 0, c]] =
   Inr (exp (- (x * x) / (2 * a)) / sqrt (2 * pi * a) * (exp (- (y * y) / (2 * b)) / sqrt (2 * pi * b) *
        (exp (- (z * z) / (2 * c)) / sqrt (2 * pi * c))))"
  by (simp add: pdf_diag_def is_diag_def is_mat_def diag_def upt_rec numeral_3_eq_3)

lemma k_D_pos: "0 < k_D"
  unfolding k_D_def K_D_def by (simp add: pi_gt_zero)

lemma lik_D: "collect (map (\<lambda>j. mvn_pdf np_ref (col ar_D j) [[1, 0, 0], [0, 4, 0], [0, 0, 1]]) [0..<nat (3 + 1)]) =
   Inr [k_D, exp (- (r_D * r_D / 8)) * k_D,
        exp (- (r_D * r_D / 32)) * exp (- (r_D * sqrt 3 * (r_D * sqrt 3) / 8)) * k_D,
        exp (- (r_D * r_D / 32)) * exp (- (r_D * sqrt 3 * (r_D * sqrt 3) / 8)) * k_D]"
  unfolding ar_D k_D_def K_D_def
  by (simp add: pdf_diag_3 col_def upt_rec eval_nat_numeral)

lemma exp_D1: "exp (- (r_D * r_D / 8)) = exp (- (4 / 13 * ln 10))"
  by (simp add: r_D_sq)

lemma exp_D2: "exp (- (r_D * r_D / 32)) * exp (- (r_D * sqrt 3 * (r_D * sqrt 3) / 8)) = 1 / 10"
proof -
  have "r_D * sqrt 3 * (r_D * sqrt 3) = (r_D * r_D) * (sqrt 3 * sqrt 3)"
    by (simp only: mult_ac)
  also have "\<dots> = 3 * (32 / 13 * ln 10)" by (simp add: r_D_sq)
  finally have e: "r_D * sqrt 3 * (r_D * sqrt 3) = 3 * (32 / 13 * ln 10)" .
  have "exp (- (r_D * r_D / 32)) * exp (- (r_D * sqrt 3 * (r_D * sqrt 3) / 8))
        = exp (- (r_D * r_D / 32) + - (r_D * sqrt 3 * (r_D * sqrt 3) / 8))"
    by (simp only: exp_add)
  also have "\<dots> = exp (- ln 10)" unfolding e r_D_sq by simp
  also have "\<dots> = 1 / 10" by (simp add: exp_minus)
  finally show ?thesis .
qed

lemma lik_D_rel:
  "map (\<lambda>l. l / [k_D, exp (- (r_D * r_D / 8)) * k_D,
        exp (- (r_D * r_D / 32)) * exp (- (r_D * sqrt 3 * (r_D * sqrt 3) / 8)) * k_D,
        exp (- (r_D * r_D / 32)) * exp (- (r_D * sqrt 3 * (r_D * sqrt 3) / 8)) * k_D] ! 0)
     [k_D, exp (- (r_D * r_D / 8)) * k_D,
        exp (- (r_D * r_D / 32)) * exp (- (r_D * sqrt 3 * (r_D * sqrt 3) / 8)) * k_D,
        exp (- (r_D * r_D / 32)) * exp (- (r_D * sqrt 3 * (r_D * sqrt 3) / 8)) * k_D]
   = [1, exp (- (4 / 13 * ln 10)), 1 / 10, 1 / 10]"
  unfolding exp_D2 exp_D1 using k_D_pos by simp

lemma eig_diag_2: "eig_diag [[a, 0], [0, b]] = Inr ([a, b], [[1, 0], [0, 1]])"
  by (simp add: eig_diag_def is_diag_def is_mat_def diag_def eye_def upt_rec numeral_2_eq_2)

lemma solve_diag_2: "a \<noteq> 0 \<Longrightarrow> b \<noteq> 0 \<Longrightarrow>
   quadratic_form_inv solve_diag [[a, 0], [0, b]] [x, y] = Inr (x * (x / a) + y * (y / b))"
  by (simp add: quadratic_form_inv_def solve_diag_def is_diag_def is_mat_def diag_def dot_def
      upt_rec numeral_2_eq_2)

lemma run_D:
  "comp_scenarios np_ref [[1, 0, 0], [0, 4, 0], [0, 0, 1]] [1, 0, 0] 1 (1 / 10) 3 =
     Inr ([[1, 1, 1, 1], [0, r_D, - (r_D / 2), - (r_D / 2)],
           [0, 0, r_D * sqrt 3 / 2, - (r_D * sqrt 3 / 2)]],
          [1, exp (- (4 / 13 * ln 10)), 1 / 10, 1 / 10])"
proof -
  have "comp_scenarios np_ref [[1, 0, 0], [0, 4, 0], [0, 0, 1]] [1, 0, 0] 1 (1 / 10) 3 =
      Inr (ar_D, map (\<lambda>l. l / [k_D, exp (- (r_D * r_D / 8)) * k_D,
        exp (- (r_D * r_D / 32)) * exp (- (r_D * sqrt 3 * (r_D * sqrt 3) / 8)) * k_D,
        exp (- (r_D * r_D / 32)) * exp (- (r_D * sqrt 3 * (r_D * sqrt 3) / 8)) * k_D] ! 0)
     [k_D, exp (- (r_D * r_D / 8)) * k_D,
        exp (- (r_D * r_D / 32)) * exp (- (r_D * sqrt 3 * (r_D * sqrt 3) / 8)) * k_D,
        exp (- (r_D * r_D / 32)) * exp (- (r_D * sqrt 3 * (r_D * sqrt 3) / 8)) * k_D])"
  proof (rule comp_scenarios_eval[where p = "[[1, 0, 0], [0, 1, 0], [0, 0, 1]]"
        and first_comp = 1 and dy = "[[1, 0, 0], [0, 4, 0], [0, 0, 1]]" and ahy = "[0, 0]"
        and dyh = "[[4, 0], [0, 1]]" and vals = "[4, 1]" and vect = "[[1, 0], [0, 1]]"
        and V = "[[1, 0], [0, 1]]"
        and t = "[[1, - (1 / 2), - (1 / 2)], [0, sqrt 3 / 2, - (sqrt 3 / 2)]]"
        and z = "[[1, - (1 / 2), - (1 / 2)], [0, sqrt 3 / 2, - (sqrt 3 / 2)]]"
        and denom = "13 / 16"])
    show "is_mat (length ([1, 0, 0] :: vec)) (length ([1, 0, 0] :: vec)) [[1, 0, 0], [0, 4, 0], [0, 0, 1]]"
      by (simp add: is_mat_def)
    show "p_from_w (linalg_qr np_ref) [1, 0, 0] = Inr [[1, 0, 0], [0, 1, 0], [0, 0, 1]]"
      by (simp add: p_from_w_100)
    show "mat_vec [[1, 0, 0], [0, 1, 0], [0, 0, 1]]
       (map (\<lambda>x. 1 * x / dot [1, 0, 0] (mat_vec [[1, 0, 0], [0, 4, 0], [0, 0, 1]] [1, 0, 0]))
         (mat_vec [[1, 0, 0], [0, 4, 0], [0, 0, 1]] [1, 0, 0])) ! 0 = 1"
      by (simp add: mat_ev)
    show "mat_mul [[1, 0, 0], [0, 1, 0], [0, 0, 1]]
        (mat_mul [[1, 0, 0], [0, 4, 0], [0, 0, 1]] (mat_T [[1, 0, 0], [0, 1, 0], [0, 0, 1]]))
       = [[1, 0, 0], [0, 4, 0], [0, 0, 1]]"
      by (simp add: mat_ev upt_rec numeral_3_eq_3)
    show "map (\<lambda>x. 1 * x / ([[1, 0, 0], [0, 4, 0], [0, 0, 1]] ! 0 ! 0) / norm_v [1, 0, 0])
        (map (\<lambda>r. r ! 0) (tl [[1, 0, 0], [0, 4, 0], [0, 0, 1]])) = [0, 0]"
      by simp
    show "map2 (map2 (\<lambda>x y. x - y / ([[1, 0, 0], [0, 4, 0], [0, 0, 1]] ! 0 ! 0)))
           (map tl (tl [[1, 0, 0], [0, 4, 0], [0, 0, 1]]))
           (map (\<lambda>a. map (\<lambda>b. a * b) (map (\<lambda>r. r ! 0) (tl [[1, 0, 0], [0, 4, 0], [0, 0, 1]])))
             (map (\<lambda>r. r ! 0) (tl [[1, 0, 0], [0, 4, 0], [0, 0, 1]]))) = ([[4, 0], [0, 1]] :: mat)"
      by simp
    show "linalg_eig np_ref [[4, 0], [0, 1]] = Inr ([4, 1], [[1, 0], [0, 1]])"
      by (simp add: eig_diag_2)
    show "map (\<lambda>r. map (\<lambda>j. r ! j) (rev (argsort [4, 1]))) [[1, 0], [0, 1]] = ([[1, 0], [0, 1]] :: mat)"
      by (simp add: argsort_def upt_rec numeral_2_eq_2)
    show "standard_simplex_vertices (linalg_qr np_ref) 3 =
        Inr [[1, - (1 / 2), - (1 / 2)], [0, sqrt 3 / 2, - (sqrt 3 / 2)]]"
      by (simp add: simplex_3)
    show "ncols (map (take (nat (3 - 1))) ([[1, 0], [0, 1]] :: mat)) =
        length [[1, - (1 / 2), - (1 / 2)], [0, sqrt 3 / 2, - (sqrt 3 / 2)]]"
      by (simp add: ncols_def)
    show "mat_mul (map (take (nat (3 - 1))) [[1, 0], [0, 1]])
         [[1, - (1 / 2), - (1 / 2)], [0, sqrt 3 / 2, - (sqrt 3 / 2)]]
        = [[1, - (1 / 2), - (1 / 2)], [0, sqrt 3 / 2, - (sqrt 3 / 2)]]"
      by (simp add: mat_ev upt_rec numeral_3_eq_3)
    show "quadratic_form_inv (linalg_solve np_ref) [[4, 0], [0, 1]]
        (map last [[1, - (1 / 2), - (1 / 2)], [0, sqrt 3 / 2, - (sqrt 3 / 2)]]) = Inr (13 / 16)"
      by (simp add: solve_diag_2)
    show "mat_mul (mat_T [[1, 0, 0], [0, 1, 0], [0, 0, 1]]) (replicate (nat (3 + 1)) 1 #
           map2 (#) [0, 0] (map2 (\<lambda>a. map (\<lambda>x. sqrt (- 2 * ln (1 / 10) / (13 / 16)) * x + a)) [0, 0]
             [[1, - (1 / 2), - (1 / 2)], [0, sqrt 3 / 2, - (sqrt 3 / 2)]])) = ar_D"
      unfolding ar_D_def r_D_def ..
    show "collect (map (\<lambda>j. mvn_pdf np_ref (col ar_D j) [[1, 0, 0], [0, 4, 0], [0, 0, 1]]) [0..<nat (3 + 1)]) =
       Inr [k_D, exp (- (r_D * r_D / 8)) * k_D,
        exp (- (r_D * r_D / 32)) * exp (- (r_D * sqrt 3 * (r_D * sqrt 3) / 8)) * k_D,
        exp (- (r_D * r_D / 32)) * exp (- (r_D * sqrt 3 * (r_D * sqrt 3) / 8)) * k_D]"
      by (rule lik_D)
  qed
  then show ?thesis unfolding lik_D_rel ar_D .
qed

lemma k_q1_pos: "0 < k_q1"
  unfolding k_q1_def by (simp add: pi_gt_zero)

lemma run_q1:
  "comp_scenarios np_ref [[1, 0], [0, 1]] [3, 4] 5 1 2 =
     Inr ([[3 / 5, 3 / 5, 3 / 5], [4 / 5, 4 / 5, 4 / 5]], [1, 1, 1])"
proof -
  have "comp_scenarios np_ref [[1, 0], [0, 1]] [3, 4] 5 1 2 =
     Inr ([[3 / 5, 3 / 5, 3 / 5], [4 / 5, 4 / 5, 4 / 5]],
          map (\<lambda>l. l / [k_q1, k_q1, k_q1] ! 0) [k_q1, k_q1, k_q1])"
  proof (rule comp_scenarios_eval[where p = "[[3 / 5, 4 / 5], [- (4 / 5), 3 / 5]]"
        and first_comp = 1 and dy = "[[1, 0], [0, 1]]" and ahy = "[0]" and dyh = "[[1]]"
        and vals = "[1]" and vect = "[[1]]" and V = "[[1]]" and t = "[[1, - 1]]" and z = "[[1, - 1]]"
        and denom = 1])
    show "is_mat (length ([3, 4] :: vec)) (length ([3, 4] :: vec)) [[1, 0], [0, 1]]"
      by (simp add: is_mat_def)
    show "p_from_w (linalg_qr np_ref) [3, 4] = Inr [[3 / 5, 4 / 5], [- (4 / 5), 3 / 5]]"
      by (simp add: p_from_w_3_4)
    show "mat_vec [[3 / 5, 4 / 5], [- (4 / 5), 3 / 5]]
       (map (\<lambda>x. 5 * x / dot [3, 4] (mat_vec [[1, 0], [0, 1]] [3, 4])) (mat_vec [[1, 0], [0, 1]] [3, 4])) ! 0 = 1"
      by (simp add: mat_ev)
    show "mat_mul [[3 / 5, 4 / 5], [- (4 / 5), 3 / 5]]
         (mat_mul [[1, 0], [0, 1]] (mat_T [[3 / 5, 4 / 5], [- (4 / 5), 3 / 5]])) = [[1, 0], [0, 1]]"
      by (simp add: mat_ev upt_rec numeral_2_eq_2)
    show "map (\<lambda>x. 5 * x / ([[1, 0], [0, 1]] ! 0 ! 0) / norm_v [3, 4]) (map (\<lambda>r. r ! 0) (tl [[1, 0], [0, 1]])) = [0]"
      by simp
    show "map2 (map2 (\<lambda>x y. x - y / ([[1, 0], [0, 1]] ! 0 ! 0))) (map tl (tl [[1, 0], [0, 1]]))
           (map (\<lambda>a. map (\<lambda>b. a * b) (map (\<lambda>r. r ! 0) (tl [[1, 0], [0, 1]]))) (map (\<lambda>r. r ! 0) (tl [[1, 0], [0, 1]])))
          = ([[1]] :: mat)"
      by simp
    show "linalg_eig np_ref [[1]] = Inr ([1], [[1]])" by (simp add: eig_diag_1)
    show "map (\<lambda>r. map (\<lambda>j. r ! j) (rev (argsort [1]))) [[1]] = [[1::real]]" by (simp add: argsort_1)
    show "standard_simplex_vertices (linalg_qr np_ref) 2 = Inr [[1, - 1]]" by (simp add: simplex_2)
    show "ncols (map (take (nat (2 - 1))) [[1::real]]) = length [[1, - 1 :: real]]" by (simp add: ncols_def)
    show "mat_mul (map (take (nat (2 - 1))) [[1]]) [[1, - 1]] = [[1, - 1]]"
      by (simp add: mat_ev upt_rec numeral_2_eq_2)
    show "quadratic_form_inv (linalg_solve np_ref) [[1]] (map last [[1, - 1]]) = Inr 1"
      by (simp add: solve_diag_1)
    show ar: "mat_mul (mat_T [[3 / 5, 4 / 5], [- (4 / 5), 3 / 5]]) (replicate (nat (2 + 1)) 1 #
           map2 (#) [0] (map2 (\<lambda>a. map (\<lambda>x. sqrt (- 2 * ln 1 / 1) * x + a)) [0] [[1, - 1]]))
         = [[3 / 5, 3 / 5, 3 / 5], [4 / 5, 4 / 5, 4 / 5]]"
      by (simp add: mat_ev upt_rec numeral_2_eq_2 numeral_3_eq_3)
    show "collect (map (\<lambda>j. mvn_pdf np_ref (col [[3 / 5, 3 / 5, 3 / 5], [4 / 5, 4 / 5, 4 / 5]] j) [[1, 0], [0, 1]])
         [0..<nat (2 + 1)]) = Inr [k_q1, k_q1, k_q1]"
      by (simp add: pdf_diag_2 col_def upt_rec numeral_3_eq_3 k_q1_def)
  qed
  then show ?thesis using k_q1_pos by simp
qed

subsection \<open>Claims about \<^verbatim>\<open>comp_scenarios\<close>\<close>

text \<open>
  Claim C4 on \<open>w = [3, -4]\<close>: row 0 of the returned matrix is \<open>[3/5, 4/5]\<close>, while
  \<open>w / \<parallel>w\<parallel> = [3/5, -4/5]\<close>. The sign loop has negated column 1.
\<close>

theorem p_from_w_negative_component:
  "p_from_w qr_gram_schmidt [3, - 4] = Inr [[3 / 5, 4 / 5], [4 / 5, - (3 / 5)]] \<and>
   map (\<lambda>x. x / norm_v [3, - 4]) [3, - 4] = [3 / 5, - (4 / 5)]"
  by (simp add: p_from_w_3_m4 norm_v_def dot_def)

text \<open>
  Claim C1 on \<open>C = I\<close>, \<open>w = [3, -4]\<close>, \<open>L = 125\<close>: the column \<^verbatim>\<open>Scenario_0\<close> is
  \<open>[-21/5, -28/5]\<close>, while \<open>x* = L (C w) / (w' C w) = [15, -20]\<close>.
\<close>

theorem central_scenario_mixed_signs:
  "scenario 0 (comp_scenarios np_ref [[1, 0], [0, 1]] [3, - 4] 125 (1 / 10) 2) = Inr [- (21 / 5), - (28 / 5)] \<and>
   map (\<lambda>x. 125 * x / dot [3, - 4] (mat_vec [[1, 0], [0, 1]] [3, - 4])) (mat_vec [[1, 0], [0, 1]] [3, - 4])
     = [15, - 20]"
  using run_mixed by (auto simp: scenario_def mat_ev)

text \<open>
  Claim C2 on the same input: the portfolio loss \<open>w' x\<close> of \<^verbatim>\<open>Scenario_0\<close> is \<open>49/5\<close>,
  not the target \<open>125\<close>.
\<close>

theorem loss_mixed_signs:
  "\<exists>x. scenario 0 (comp_scenarios np_ref [[1, 0], [0, 1]] [3, - 4] 125 (1 / 10) 2) = Inr x \<and>
       dot [3, - 4] x = 49 / 5"
  using run_mixed by (auto simp: scenario_def dot_def)

text \<open>
  Claim C9 on \<open>C = diag(2, 1)\<close>, \<open>L = 34\<close>: for \<open>w = [3, 4]\<close> the central scenario is
  \<open>[6, 4]\<close>; for \<open>-w\<close> it is \<open>[-54/25, -172/25]\<close>, not \<open>[-6, -4]\<close>.
\<close>

theorem central_scenario_negated_weights:
  "scenario 0 (comp_scenarios np_ref [[2, 0], [0, 1]] [3, 4] 34 (1 / 10) 2) = Inr [6, 4] \<and>
   scenario 0 (comp_scenarios np_ref [[2, 0], [0, 1]] [- 3, - 4] 34 (1 / 10) 2) = Inr [- (54 / 25), - (172 / 25)]"
  using run_pos run_neg by (auto simp: scenario_def)

text \<open>
  Claim C3 as stated fails: for \<open>C = diag(1, 4, 1)\<close>, \<open>w = [1, 0, 0]\<close>, \<open>L = 1\<close>,
  \<open>q = 1/10\<close> and \<open>M = 3\<close> the likelihood vector is \<open>[1, 10 powr (-4/13), 1/10, 1/10]\<close>:
  the first alternative is more likely than \<open>q\<close>.
\<close>

theorem likelihood_not_q:
  "likelihood (comp_scenarios np_ref [[1, 0, 0], [0, 4, 0], [0, 0, 1]] [1, 0, 0] 1 (1 / 10) 3) =
      Inr [1, exp (- (4 / 13 * ln 10)), 1 / 10, 1 / 10] \<and>
   exp (- (4 / 13 * ln 10)) \<noteq> (1 / 10 :: real)"
proof -
  have "exp (- (4 / 13 * ln 10)) \<noteq> (1 / 10 :: real)"
  proof
    assume a: "exp (- (4 / 13 * ln 10)) = (1 / 10 :: real)"
    have "- (4 / 13 * ln 10) = ln (exp (- (4 / 13 * ln (10 :: real))))" by (simp only: ln_exp)
    also have "\<dots> = ln (1 / 10 :: real)" by (simp only: a)
    also have "\<dots> = - ln (10 :: real)" by (simp add: ln_div)
    finally have "ln (10 :: real) = 0" by simp
    then show False by simp
  qed
  then show ?thesis by (simp add: run_D likelihood_def)
qed

subsection \<open>Consequences of the contract of the factorisation\<close>

lemma mat_T_entry:
  assumes "is_mat r c m" "i < c" "j < r"
  shows "mat_T m ! i ! j = m ! j ! i"
proof -
  have "0 < r" using assms by simp
  then show ?thesis using assms by (simp add: mat_T_nth col_nth is_mat_length)
qed

lemma sum_delta_mult:
  fixes f :: "nat \<Rightarrow> real"
  assumes "j < m"
  shows "(\<Sum>k<m. (if j = k then 1 else 0) * f k) = f j"
proof -
  have "(\<Sum>k<m. (if j = k then 1 else 0) * f k) = (\<Sum>k<m. if j = k then f k else 0)"
    by (rule sum.cong) auto
  then show ?thesis using assms by (simp add: sum.delta')
qed

lemma upper_triangular_entry:
  "upper_triangular r \<Longrightarrow> i < length r \<Longrightarrow> j < i \<Longrightarrow> r ! i ! j = 0"
  by (simp add: upper_triangular_def list_all_iff)

text \<open>What the contract of the factorisation gives for the rows of \<open>q.T\<close>.\<close>

lemma qr_factor_rows:
  assumes A: "is_mat m m a" and m: "0 < m" and qr: "qr_factor (mat_T a) q"
  defines "p \<equiv> mat_T q"
  shows "is_mat m m p"
    and "\<And>i k. i < m \<Longrightarrow> k < m \<Longrightarrow> dot (p ! i) (p ! k) = (if i = k then 1 else 0)"
    and "\<And>j k. j < m \<Longrightarrow> k < m \<Longrightarrow> (\<Sum>i<m. p ! i ! j * p ! i ! k) = (if j = k then 1 else 0)"
    and "\<And>i. 0 < i \<Longrightarrow> i < m \<Longrightarrow> dot (p ! i) (a ! 0) = 0"
proof -
  have Ta: "is_mat m m (mat_T a)" using A m by (rule mat_T_is_mat)
  have lenTa: "length (mat_T a) = m" using Ta by (rule is_mat_length)
  have Q: "is_mat m m q" and QtQ: "mat_mul (mat_T q) q = eye m" and QQt: "mat_mul q (mat_T q) = eye m"
    and R: "upper_triangular (mat_mul (mat_T q) (mat_T a))"
    using qr by (simp_all add: qr_factor_def orthogonal_mat_def orthonormal_cols_def lenTa)
  show p: "is_mat m m p" unfolding p_def using Q m by (rule mat_T_is_mat)
  have Tp: "mat_T p = q" unfolding p_def using Q m m by (rule mat_T_mat_T)
  have rows: "\<forall>i<m. \<forall>k<m. dot (p ! i) (p ! k) = (if i = k then 1 else 0)"
    using gram_eye_iff[OF p] QtQ by (simp add: Tp) (simp add: p_def)
  then show "\<And>i k. i < m \<Longrightarrow> k < m \<Longrightarrow> dot (p ! i) (p ! k) = (if i = k then 1 else 0)"
    by blast
  have qrows: "\<forall>j<m. \<forall>k<m. dot (q ! j) (q ! k) = (if j = k then 1 else 0)"
    using gram_eye_iff[OF Q] QQt by simp
  show "(\<Sum>i<m. p ! i ! j * p ! i ! k) = (if j = k then 1 else 0)" if jk: "j < m" "k < m" for j k
  proof -
    have "(\<Sum>i<m. p ! i ! j * p ! i ! k) = (\<Sum>i<m. q ! j ! i * q ! k ! i)"
      by (rule sum.cong) (use jk Q in \<open>simp_all add: p_def mat_T_entry\<close>)
    also have "\<dots> = dot (q ! j) (q ! k)"
      using jk Q by (simp add: dot_nth is_mat_row)
    finally show ?thesis using qrows jk by simp
  qed
  show "dot (p ! i) (a ! 0) = 0" if i: "0 < i" "i < m" for i
  proof -
    have "mat_mul (mat_T q) (mat_T a) ! i ! 0 = dot (p ! i) (col (mat_T a) 0)"
      using i p Ta m by (simp add: mat_mul_nth p_def[symmetric] is_mat_length is_mat_ncols)
    also have "col (mat_T a) 0 = a ! 0" using A m by (rule col_mat_T)
    finally have "mat_mul (mat_T q) (mat_T a) ! i ! 0 = dot (p ! i) (a ! 0)" .
    moreover have "mat_mul (mat_T q) (mat_T a) ! i ! 0 = 0"
      using R i p by (intro upper_triangular_entry) (simp_all add: p_def[symmetric] is_mat_length)
    ultimately show ?thesis by simp
  qed
qed

lemma qr_factor_row0:
  assumes A: "is_mat m m a" and m: "0 < m" and qr: "qr_factor (mat_T a) q" and j: "j < m"
  shows "a ! 0 ! j = dot (mat_T q ! 0) (a ! 0) * (mat_T q ! 0 ! j)"
proof -
  define p where "p = mat_T q"
  note f = qr_factor_rows[OF A m qr, folded p_def]
  have la: "length (a ! 0) = m" using A m by (simp add: is_mat_row)
  have lp: "\<And>i. i < m \<Longrightarrow> length (p ! i) = m" using f(1) by (simp add: is_mat_row)
  have "a ! 0 ! j = (\<Sum>k<m. (if j = k then 1 else 0) * a ! 0 ! k)"
    using j by (simp add: sum_delta_mult)
  also have "\<dots> = (\<Sum>k<m. (\<Sum>i<m. p ! i ! j * p ! i ! k) * a ! 0 ! k)"
    by (rule sum.cong) (use j f(3) in simp_all)
  also have "\<dots> = (\<Sum>k<m. \<Sum>i<m. p ! i ! j * (p ! i ! k * a ! 0 ! k))"
    by (simp add: sum_distrib_right mult.assoc)
  also have "\<dots> = (\<Sum>i<m. \<Sum>k<m. p ! i ! j * (p ! i ! k * a ! 0 ! k))"
    by (rule sum.swap)
  also have "\<dots> = (\<Sum>i<m. p ! i ! j * dot (p ! i) (a ! 0))"
    by (rule sum.cong) (simp_all add: dot_nth lp la sum_distrib_left)
  also have "\<dots> = (\<Sum>i<m. if i = 0 then p ! 0 ! j * dot (p ! 0) (a ! 0) else 0)"
    by (rule sum.cong) (use f(4) in auto)
  also have "\<dots> = p ! 0 ! j * dot (p ! 0) (a ! 0)"
    using m by (simp add: sum.delta)
  finally show ?thesis by (simp add: p_def mult.commute)
qed

subsection \<open>The simplex is regular\<close>

lemma simplex_start_is_mat: "is_mat m m (simplex_start m)"
  by (rule is_matI) (auto simp: simplex_start_def eye_def nth_list_update)

lemma simplex_start_row0: "0 < m \<Longrightarrow> simplex_start m ! 0 = replicate m 1"
  by (simp add: simplex_start_def eye_def)

lemma dot_ones: "length r = m \<Longrightarrow> dot r (replicate m 1) = (\<Sum>k<m. r ! k)"
  by (simp add: dot_nth)

lemma centering_col:
  assumes "j < m" "k < m"
  shows "col (map (map (\<lambda>x. x - c)) (eye m)) j ! k = (if j = k then 1 else 0) - c"
  using assms by (auto simp: col_def eye_def)

lemma centering_is_mat: "is_mat m m (map (map (\<lambda>x. x - c)) (eye m))"
  by (rule is_matI) (simp_all add: eye_def)

lemma dot_centering:
  assumes r: "length r = m" and j: "j < m"
  shows "dot r (col (map (map (\<lambda>x. x - c)) (eye m)) j) = r ! j - c * (\<Sum>k<m. r ! k)"
proof -
  have len: "length (col (map (map (\<lambda>x. x - c)) (eye m)) j) = m"
    by (simp add: eye_def)
  have "dot r (col (map (map (\<lambda>x. x - c)) (eye m)) j)
        = (\<Sum>k<m. r ! k * col (map (map (\<lambda>x. x - c)) (eye m)) j ! k)"
    using r len by (simp add: dot_nth)
  also have "\<dots> = (\<Sum>k<m. r ! k * ((if j = k then 1 else 0) - c))"
    by (rule sum.cong) (use j in \<open>simp_all add: centering_col\<close>)
  also have "\<dots> = (\<Sum>k<m. (if j = k then 1 else 0) * r ! k) - c * (\<Sum>k<m. r ! k)"
    by (simp add: algebra_simps sum_subtractf sum_distrib_left)
  finally show ?thesis using j by (simp add: sum_delta_mult)
qed

lemma tl_conv_map: "tl xs = map (\<lambda>i. xs ! Suc i) [0..<length xs - 1]"
  by (rule nth_equalityI) (simp_all add: nth_tl)

text \<open>The rows of \<open>q.T\<close> for the array of \<^verbatim>\<open>standard_simplex_vertices\<close>.\<close>

lemma simplex_rows:
  assumes m: "0 < m" and qr: "qr_factor (mat_T (simplex_start m)) q"
  defines "p \<equiv> mat_T q"
  shows "is_mat m m p"
    and "\<And>j k. j < m \<Longrightarrow> k < m \<Longrightarrow> (\<Sum>i<m. p ! i ! j * p ! i ! k) = (if j = k then 1 else 0)"
    and "\<And>i. 0 < i \<Longrightarrow> i < m \<Longrightarrow> (\<Sum>k<m. p ! i ! k) = 0"
    and "\<And>j k. j < m \<Longrightarrow> k < m \<Longrightarrow> p ! 0 ! j = p ! 0 ! k"
proof -
  note f = qr_factor_rows[OF simplex_start_is_mat m qr, folded p_def]
  show p: "is_mat m m p" by (rule f(1))
  show "\<And>j k. j < m \<Longrightarrow> k < m \<Longrightarrow> (\<Sum>i<m. p ! i ! j * p ! i ! k) = (if j = k then 1 else 0)"
    by (rule f(3))
  show "(\<Sum>k<m. p ! i ! k) = 0" if "0 < i" "i < m" for i
    using f(4)[OF that] that p by (simp add: simplex_start_row0[OF m] dot_ones is_mat_row)
  have c: "1 = dot (p ! 0) (replicate m 1) * p ! 0 ! j" if "j < m" for j
    using qr_factor_row0[OF simplex_start_is_mat m qr that] that
    by (simp add: simplex_start_row0[OF m] p_def)
  show "p ! 0 ! j = p ! 0 ! k" if "j < m" "k < m" for j k
  proof -
    have "dot (p ! 0) (replicate m 1) * p ! 0 ! j = dot (p ! 0) (replicate m 1) * p ! 0 ! k"
      using c[OF that(1)] c[OF that(2)] by simp
    moreover have "dot (p ! 0) (replicate m 1) \<noteq> 0" using c[OF that(1)] by auto
    ultimately show ?thesis by simp
  qed
qed

lemma tl_centered:
  assumes p: "is_mat m m p" and s: "\<And>i. 0 < i \<Longrightarrow> i < m \<Longrightarrow> (\<Sum>k<m. p ! i ! k) = 0"
  shows "tl (mat_mul p (map (map (\<lambda>x. x - c)) (eye m))) = tl p"
proof (rule nth_equalityI)
  let ?z = "map (map (\<lambda>x. x - c)) (eye m)"
  show "length (tl (mat_mul p ?z)) = length (tl p)" by simp
  fix i assume "i < length (tl (mat_mul p ?z))"
  then have i: "Suc i < m" using p by (simp add: is_mat_length)
  then have m: "0 < m" by simp
  have nc: "ncols ?z = m" using centering_is_mat m by (rule is_mat_ncols)
  have len: "length (p ! Suc i) = m" using p i by (simp add: is_mat_row)
  have "tl (mat_mul p ?z) ! i = mat_mul p ?z ! Suc i"
    using i p by (simp add: nth_tl is_mat_length)
  also have "\<dots> = map (\<lambda>j. dot (p ! Suc i) (col ?z j)) [0..<m]"
    using i p by (simp add: mat_mul_def nc is_mat_length)
  also have "\<dots> = map (\<lambda>j. p ! Suc i ! j) [0..<m]"
    by (rule map_cong) (use len s[of "Suc i"] i in \<open>simp_all add: dot_centering\<close>)
  also have "\<dots> = p ! Suc i" using map_nth[of "p ! Suc i"] len by simp
  also have "\<dots> = tl p ! i" using i p by (simp add: nth_tl is_mat_length)
  finally show "tl (mat_mul p ?z) ! i = tl p ! i" .
qed


lemma sum_list_cyclic:
  fixes f :: "nat \<Rightarrow> real"
  assumes "0 < m"
  shows "sum_list (map f ([1..<m] @ [0])) = (\<Sum>j<m. f j)"
proof -
  have "sum_list (map f ([1..<m] @ [0])) = sum f {1..<m} + f 0"
    by (simp add: interv_sum_list_conv_sum_set_nat)
  also have "\<dots> = sum f {0..<m}"
    using assms by (simp add: sum.atLeast_Suc_lessThan[of 0 m])
  finally show ?thesis by (simp add: atLeast0LessThan)
qed

lemma cyclic_nth: "j < m \<Longrightarrow> ([1..<m] @ [0]) ! j = (if j < m - 1 then Suc j else 0)"
  by (auto simp: nth_append)

lemma cyclic_inj:
  assumes "j < m" "k < m" "j \<noteq> k"
  shows "([1..<m] @ [0]) ! j \<noteq> ([1..<m] @ [0]) ! k" "([1..<m] @ [0]) ! j < m"
  using assms unfolding cyclic_nth[OF assms(1)] cyclic_nth[OF assms(2)] by auto

text \<open>The vertices in closed form: rows \<open>1..m-1\<close> of \<open>q.T\<close>, columns rotated, scaled.\<close>

lemma simplex_closed:
  assumes M: "2 \<le> M"
    and qr: "qr_factor (mat_T (simplex_start (nat M))) (qr (mat_T (simplex_start (nat M))))"
  defines "m \<equiv> nat M"
  defines "p \<equiv> gram_schmidt_rows qr (simplex_start m)"
  shows "\<exists>c. c * c = real_of_int M / (real_of_int M - 1) \<and>
           standard_simplex_vertices qr M =
             Inr (map (\<lambda>i. map (\<lambda>j. c * p ! Suc i ! j) ([1..<m] @ [0])) [0..<m - 1])"
proof -
  have m: "2 \<le> m" "0 < m" using M by (simp_all add: m_def)
  have q: "qr_factor (mat_T (simplex_start m)) (qr (mat_T (simplex_start m)))"
    using qr by (simp add: m_def)
  have pq: "p = mat_T (qr (mat_T (simplex_start m)))" by (simp add: p_def gram_schmidt_rows_def)
  note f = simplex_rows[OF m(2) q, folded pq]
  define s where "s = sqrt (real_of_int M / (real_of_int M - 1))"
  have s2: "s * s = real_of_int M / (real_of_int M - 1)"
    unfolding s_def using M by simp
  define gs where "gs = map (\<lambda>r. map (\<lambda>j. r ! j) ([1..<m] @ [0])) (tl p)"
  have lenp: "length p = m" using f(1) by (rule is_mat_length)
  have gs: "gs = map (\<lambda>i. map (\<lambda>j. p ! Suc i ! j) ([1..<m] @ [0])) [0..<m - 1]"
    unfolding gs_def by (subst tl_conv_map) (simp add: lenp comp_def)
  have ne: "gs \<noteq> []" using m by (simp add: gs)
  define c where "c = (if gs ! 0 ! 0 < 0 then - s else s)"
  have c2: "c * c = real_of_int M / (real_of_int M - 1)" using s2 by (simp add: c_def)
  have tc: "tl (mat_mul p (map (map (\<lambda>x. x - 1 / real_of_int M)) (eye m))) = tl p"
    using f(1) f(3) by (rule tl_centered)
  have h1: "(M < 0) = False" and h2: "(M = 0) = False" using M by simp_all
  have "standard_simplex_vertices qr M =
      Inr (map (map (\<lambda>x. x * s)) (if gs ! 0 ! 0 < 0 then map (map uminus) gs else gs))"
    unfolding standard_simplex_vertices_def Let_def h1 h2 if_False m_def[symmetric] p_def[symmetric]
      tc gs_def[symmetric] s_def[symmetric]
    using ne by simp
  also have "map (map (\<lambda>x. x * s)) (if gs ! 0 ! 0 < 0 then map (map uminus) gs else gs)
      = map (map (\<lambda>x. c * x)) gs"
    by (simp add: c_def comp_def mult.commute)
  also have "\<dots> = map (\<lambda>i. map (\<lambda>j. c * p ! Suc i ! j) ([1..<m] @ [0])) [0..<m - 1]"
    by (simp add: gs comp_def)
  finally show ?thesis using c2 by blast
qed

lemma sum_shift_zero:
  fixes g :: "nat \<Rightarrow> real"
  assumes "0 < m" "g 0 = 0"
  shows "(\<Sum>i<m - 1. g (Suc i)) = (\<Sum>i<m. g i)"
proof -
  obtain n where n: "m = Suc n" using assms(1) by (cases m) auto
  have "(\<Sum>i<Suc n. g i) = g 0 + (\<Sum>i<n. g (Suc i))" by (rule sum.lessThan_Suc_shift)
  then show ?thesis unfolding n using assms(2) by simp
qed

lemma sum_sq_diff:
  fixes p :: mat
  assumes cols: "\<And>j k. j < m \<Longrightarrow> k < m \<Longrightarrow> (\<Sum>i<m. p ! i ! j * p ! i ! k) = (if j = k then 1 else 0)"
    and ab: "a < m" "b < m" "a \<noteq> b"
  shows "(\<Sum>i<m. (p ! i ! a - p ! i ! b) * (p ! i ! a - p ! i ! b)) = 2"
proof -
  have "(\<Sum>i<m. (p ! i ! a - p ! i ! b) * (p ! i ! a - p ! i ! b))
      = (\<Sum>i<m. p ! i ! a * p ! i ! a) - (\<Sum>i<m. p ! i ! a * p ! i ! b)
        - (\<Sum>i<m. p ! i ! b * p ! i ! a) + (\<Sum>i<m. p ! i ! b * p ! i ! b)"
    by (simp add: algebra_simps sum.distrib sum_subtractf sum_distrib_left)
  then show ?thesis using ab by (simp add: cols)
qed

text \<open>
  Claim C6. For \<open>M \<ge> 2\<close>, and a factorisation of the array \<open>a\<close> that meets the contract
  of \<^verbatim>\<open>np.linalg.qr\<close>, \<^verbatim>\<open>standard_simplex_vertices\<close> returns an \<open>(M-1) \<times> M\<close> array;
  any two of its columns are at the distance \<open>sqrt (2 M / (M - 1))\<close>, and the mean of its
  columns is the origin.
\<close>

theorem simplex_regular:
  assumes M: "2 \<le> M"
    and qr: "qr_factor (mat_T (simplex_start (nat M))) (qr (mat_T (simplex_start (nat M))))"
  shows "\<exists>t. standard_simplex_vertices qr M = Inr t \<and> is_mat (nat M - 1) (nat M) t \<and>
           (\<forall>j<nat M. \<forall>k<nat M. j \<noteq> k \<longrightarrow>
              dist_v (col t j) (col t k) = sqrt (2 * real_of_int M / (real_of_int M - 1))) \<and>
           centroid t = replicate (nat M - 1) 0"
proof -
  define m where "m = nat M"
  define p where "p = gram_schmidt_rows qr (simplex_start m)"
  have m: "2 \<le> m" "0 < m" using M by (simp_all add: m_def)
  have q: "qr_factor (mat_T (simplex_start m)) (qr (mat_T (simplex_start m)))"
    using qr by (simp add: m_def)
  have pq: "p = mat_T (qr (mat_T (simplex_start m)))" by (simp add: p_def gram_schmidt_rows_def)
  note f = simplex_rows[OF m(2) q, folded pq]
  let ?cls = "[1..<m] @ [0]"
  obtain c where c2: "c * c = real_of_int M / (real_of_int M - 1)"
    and res: "standard_simplex_vertices qr M =
       Inr (map (\<lambda>i. map (\<lambda>j. c * p ! Suc i ! j) ?cls) [0..<m - 1])"
    using simplex_closed[of M qr] M qr unfolding m_def p_def by blast
  define t where "t = map (\<lambda>i. map (\<lambda>j. c * p ! Suc i ! j) ?cls) [0..<m - 1]"
  have lt: "length t = m - 1" by (simp add: t_def)
  have lcls: "length ?cls = m" using m by simp
  have row: "t ! i = map (\<lambda>j. c * p ! Suc i ! j) ?cls" if "i < m - 1" for i
    using that by (simp add: t_def)
  have shape: "is_mat (m - 1) m t"
    by (rule is_matI) (use row lt lcls in simp_all)
  have entry: "col t j ! i = c * p ! Suc i ! (?cls ! j)" if "i < m - 1" "j < m" for i j
  proof -
    have "col t j ! i = t ! i ! j" using that by (simp add: col_nth lt)
    also have "\<dots> = map (\<lambda>j. c * p ! Suc i ! j) ?cls ! j" using that by (simp only: row)
    also have "\<dots> = c * p ! Suc i ! (?cls ! j)"
      by (rule nth_map) (simp only: lcls that)
    finally show ?thesis .
  qed
  have dist: "dist_v (col t j) (col t k) = sqrt (2 * real_of_int M / (real_of_int M - 1))"
    if jk: "j < m" "k < m" "j \<noteq> k" for j k
  proof -
    define a where "a = ?cls ! j"
    define b where "b = ?cls ! k"
    have ab: "a < m" "b < m" "a \<noteq> b"
      using cyclic_inj[OF jk] cyclic_inj(2)[OF jk(2) jk(1)] jk by (auto simp: a_def b_def)
    define g where "g i = (p ! i ! a - p ! i ! b) * (p ! i ! a - p ! i ! b)" for i
    have g0: "g 0 = 0" using f(4)[OF ab(1,2)] by (simp add: g_def)
    have "dot (map2 (-) (col t j) (col t k)) (map2 (-) (col t j) (col t k))
        = (\<Sum>i<m - 1. (col t j ! i - col t k ! i) * (col t j ! i - col t k ! i))"
      by (simp add: dot_nth lt)
    also have "\<dots> = (\<Sum>i<m - 1. c * c * g (Suc i))"
      by (rule sum.cong) (use jk in \<open>simp_all add: entry g_def a_def b_def algebra_simps\<close>)
    also have "\<dots> = c * c * (\<Sum>i<m - 1. g (Suc i))"
      by (simp add: sum_distrib_left)
    also have "(\<Sum>i<m - 1. g (Suc i)) = (\<Sum>i<m. g i)"
      using m(2) g0 by (rule sum_shift_zero)
    also have "\<dots> = 2" unfolding g_def using f(2) ab by (rule sum_sq_diff)
    finally show ?thesis by (simp add: dist_v_def norm_v_def c2)
  qed
  have cen: "centroid t = replicate (m - 1) 0"
  proof (rule nth_equalityI)
    show "length (centroid t) = length (replicate (m - 1) (0::real))"
      by (simp add: centroid_def lt)
    fix i assume "i < length (centroid t)"
    then have i: "i < m - 1" by (simp add: centroid_def lt)
    have "sum_list (t ! i) = (\<Sum>j<m. c * p ! Suc i ! j)"
      unfolding row[OF i] using m(2) by (rule sum_list_cyclic)
    also have "\<dots> = c * (\<Sum>j<m. p ! Suc i ! j)" by (simp add: sum_distrib_left)
    also have "\<dots> = 0" using f(3)[of "Suc i"] i by simp
    finally show "centroid t ! i = replicate (m - 1) 0 ! i"
      using i by (simp add: centroid_def lt)
  qed
  have "standard_simplex_vertices qr M = Inr t" using res by (simp only: t_def)
  then show ?thesis
    using shape dist cen unfolding m_def by blast
qed

lemma simplex_start_3: "simplex_start 3 = [[1, 1, 1], [0, 1, 0], [0, 0, 1]]"
  by (simp add: simplex_start_def eye_def upt_rec numeral_3_eq_3)

lemma qr_simplex_3:
  "qr_gram_schmidt (mat_T [[1, 1, 1], [0, 1, 0], [0, 0, 1]]) =
     [[sqrt 3 / 3, - (sqrt 6 / 6), - (sqrt 2 / 2)],
      [sqrt 3 / 3, sqrt 6 / 3, 0],
      [sqrt 3 / 3, - (sqrt 6 / 6), sqrt 2 / 2]]"
proof -
  have TT: "mat_T (mat_T [[1, 1, 1], [0, 1, 0], [0, 0, 1]]) = [[1, 1, 1], [0, 1, 0], [0, 0, 1 :: real]]"
    by (simp add: mat_T_def col_def ncols_def upt_rec numeral_3_eq_3)
  show ?thesis
    unfolding qr_gram_schmidt_def TT gs3
    by (simp add: mat_T_def col_def ncols_def upt_rec numeral_3_eq_3)
qed

lemma sqrt_prods [simp]:
  "sqrt 6 * sqrt 3 = 3 * sqrt 2" "sqrt 3 * sqrt 6 = 3 * sqrt 2"
  "sqrt 6 * sqrt 2 = 2 * sqrt 3" "sqrt 2 * sqrt 6 = 2 * sqrt 3"
  "sqrt 2 * sqrt 3 = sqrt 6" "sqrt 3 * sqrt 2 = sqrt 6"
proof -
  have 6: "sqrt 6 = sqrt 2 * sqrt 3" by (simp add: real_sqrt_mult[symmetric])
  show "sqrt 6 * sqrt 3 = 3 * sqrt 2" "sqrt 3 * sqrt 6 = 3 * sqrt 2"
    "sqrt 6 * sqrt 2 = 2 * sqrt 3" "sqrt 2 * sqrt 6 = 2 * sqrt 3"
    "sqrt 2 * sqrt 3 = sqrt 6" "sqrt 3 * sqrt 2 = sqrt 6"
    unfolding 6 by simp_all
qed

lemma qr_factor_simplex_3:
  "qr_factor (mat_T (simplex_start (nat 3))) (qr_gram_schmidt (mat_T (simplex_start (nat 3))))"
proof -
  have n: "nat 3 = 3" by simp
  show ?thesis
    unfolding n simplex_start_3 qr_simplex_3
    by (simp add: qr_factor_def orthogonal_mat_def orthonormal_cols_def upper_triangular_def
        is_mat_def mat_mul_def mat_T_def col_def ncols_def dot_def eye_def upt_rec numeral_3_eq_3)
qed


theorem simplex_regular_witness:
  "(2 :: int) \<le> 3 \<and>
   qr_factor (mat_T (simplex_start (nat 3))) (qr_gram_schmidt (mat_T (simplex_start (nat 3)))) \<and>
   standard_simplex_vertices qr_gram_schmidt 3 =
     Inr [[1, - (1 / 2), - (1 / 2)], [0, sqrt 3 / 2, - (sqrt 3 / 2)]] \<and>
   is_mat 2 3 [[1, - (1 / 2), - (1 / 2)], [0, sqrt 3 / 2, - (sqrt 3 / 2)]] \<and>
   dist_v (col [[1, - (1 / 2), - (1 / 2)], [0, sqrt 3 / 2, - (sqrt 3 / 2)]] 0)
          (col [[1, - (1 / 2), - (1 / 2)], [0, sqrt 3 / 2, - (sqrt 3 / 2)]] 1) = sqrt 3 \<and>
   dist_v (col [[1, - (1 / 2), - (1 / 2)], [0, sqrt 3 / 2, - (sqrt 3 / 2)]] 0)
          (col [[1, - (1 / 2), - (1 / 2)], [0, sqrt 3 / 2, - (sqrt 3 / 2)]] 2) = sqrt 3 \<and>
   dist_v (col [[1, - (1 / 2), - (1 / 2)], [0, sqrt 3 / 2, - (sqrt 3 / 2)]] 1)
          (col [[1, - (1 / 2), - (1 / 2)], [0, sqrt 3 / 2, - (sqrt 3 / 2)]] 2) = sqrt 3 \<and>
   centroid [[1, - (1 / 2), - (1 / 2)], [0, sqrt 3 / 2, - (sqrt 3 / 2)]] = [0, 0]"
proof -
  let ?T = "[[1, - (1 / 2), - (1 / 2)], [0, sqrt 3 / 2, - (sqrt 3 / 2)]] :: mat"
  have M: "(2 :: int) \<le> 3" by simp
  obtain t where t: "standard_simplex_vertices qr_gram_schmidt 3 = Inr t"
    and shape: "is_mat (nat 3 - 1) (nat 3) t"
    and dist: "\<forall>j<nat 3. \<forall>k<nat 3. j \<noteq> k \<longrightarrow>
                dist_v (col t j) (col t k) = sqrt (2 * real_of_int 3 / (real_of_int 3 - 1))"
    and cen: "centroid t = replicate (nat 3 - 1) 0"
    using simplex_regular [of 3 qr_gram_schmidt, OF M qr_factor_simplex_3] by blast
  have tT: "t = ?T" using t simplex_3 by simp
  have d: "dist_v (col ?T j) (col ?T k) = sqrt 3" if "j < 3" "k < 3" "j \<noteq> k" for j k
    using dist that unfolding tT by simp
  have "dist_v (col ?T 0) (col ?T 1) = sqrt 3" "dist_v (col ?T 0) (col ?T 2) = sqrt 3"
    "dist_v (col ?T 1) (col ?T 2) = sqrt 3"
    by (rule d; simp)+
  moreover have "is_mat 2 3 ?T" using shape unfolding tT by simp
  moreover have "centroid ?T = [0, 0]" using cen unfolding tT by (simp add: numeral_2_eq_2)
  ultimately show ?thesis using M qr_factor_simplex_3 simplex_3 by simp
qed

subsection \<open>The transform for weights without a negative component\<close>

lemma set_entry_is_mat: "is_mat r c m \<Longrightarrow> is_mat r c (set_entry m i j v)"
  by (cases "i < length m")
     (auto simp: is_mat_def set_entry_def list_all_length nth_list_update list_update_beyond)

lemma set_entry_row0: "i \<noteq> 0 \<Longrightarrow> set_entry m i j v ! 0 = m ! 0"
  by (simp add: set_entry_def)

lemma fold_set_entry:
  assumes "is_mat r c m" "\<forall>j\<in>set js. g j \<noteq> 0"
  shows "is_mat r c (fold (\<lambda>j p. set_entry p (g j) (h j) v) js m) \<and>
         fold (\<lambda>j p. set_entry p (g j) (h j) v) js m ! 0 = m ! 0"
  using assms
proof (induction js arbitrary: m)
  case Nil then show ?case by simp
next
  case (Cons j js)
  have 1: "is_mat r c (set_entry m (g j) (h j) v)" using Cons.prems(1) by (rule set_entry_is_mat)
  have 2: "set_entry m (g j) (h j) v ! 0 = m ! 0" using Cons.prems(2) by (simp add: set_entry_row0)
  show ?case using Cons.IH[OF 1] Cons.prems(2) 2 by simp
qed

lemma p_start_facts:
  assumes "0 < length w"
  shows "is_mat (length w) (length w) (p_start w j0)"
    and "p_start w j0 ! 0 = map (\<lambda>x. x / norm_v w) w"
proof -
  define n where "n = length w"
  define p0 where "p0 = (zeros n n)[0 := map (\<lambda>x. x / norm_v w) w]"
  define p1 where "p1 = fold (\<lambda>j p. set_entry p (j + 1) j 1) [0..<j0] p0"
  have p0: "is_mat n n p0"
    using assms by (intro is_matI) (auto simp: p0_def zeros_def nth_list_update n_def)
  have p00: "p0 ! 0 = map (\<lambda>x. x / norm_v w) w"
    using assms by (simp add: p0_def zeros_def n_def)
  have p1: "is_mat n n p1 \<and> p1 ! 0 = p0 ! 0"
    unfolding p1_def by (rule fold_set_entry[OF p0]) simp
  have p2: "is_mat n n (fold (\<lambda>j p. set_entry p j j 1) [j0 + 1..<n] p1) \<and>
            fold (\<lambda>j p. set_entry p j j 1) [j0 + 1..<n] p1 ! 0 = p1 ! 0"
    by (rule fold_set_entry) (use p1 in auto)
  have eq: "p_start w j0 = fold (\<lambda>j p. set_entry p j j 1) [j0 + 1..<n] p1"
    by (simp add: p_start_def Let_def p1_def p0_def n_def)
  show "is_mat (length w) (length w) (p_start w j0)" using p2 eq n_def by simp
  show "p_start w j0 ! 0 = map (\<lambda>x. x / norm_v w) w" using p2 p1 p00 eq by simp
qed

lemma dot_scale_self:
  assumes "0 < norm_v w"
  shows "dot (map (\<lambda>x. x / norm_v w) w) (map (\<lambda>x. x / norm_v w) w) = 1"
proof -
  have "0 < dot w w" using assms by (simp add: norm_v_def)
  then have d: "dot w w = norm_v w * norm_v w" by (simp add: norm_v_def)
  have "dot (map (\<lambda>x. x / norm_v w) w) (map (\<lambda>x. x / norm_v w) w)
        = (\<Sum>k<length w. w ! k * w ! k) / (norm_v w * norm_v w)"
    by (simp add: dot_nth sum_divide_distrib)
  also have "\<dots> = dot w w / (norm_v w * norm_v w)" by (simp add: dot_nth)
  finally show ?thesis using assms d by simp
qed

lemma p_from_w_nonneg:
  assumes j0: "j0_of w = Inr j0" and nn: "\<forall>x\<in>set w. 0 \<le> x"
    and qr: "qr_factor (mat_T (p_start w j0)) (qr (mat_T (p_start w j0)))"
  defines "n \<equiv> length w"
  shows "\<exists>P. p_from_w qr w = Inr P \<and> is_mat n n P \<and> P ! 0 = map (\<lambda>x. x / norm_v w) w \<and>
           (\<forall>i<n. \<forall>k<n. dot (P ! i) (P ! k) = (if i = k then 1 else 0)) \<and>
           (\<forall>j<n. \<forall>k<n. (\<Sum>i<n. P ! i ! j * P ! i ! k) = (if j = k then 1 else 0))"
proof -
  have n: "0 < n" using j0_of_Inr(1)[OF j0] by (auto simp: n_def)
  have wn: "0 < norm_v w" using j0 by (rule norm_v_pos)
  define a0 where "a0 = map (\<lambda>x. x / norm_v w) w"
  define gs where "gs = mat_T (qr (mat_T (p_start w j0)))"
  have A: "is_mat n n (p_start w j0)" and A0: "p_start w j0 ! 0 = a0"
    using p_start_facts[of w j0] n by (simp_all add: n_def a0_def)
  note f = qr_factor_rows[OF A n qr, folded gs_def]
  have la0: "length a0 = n" by (simp add: a0_def n_def)
  have lgs: "\<And>i. i < n \<Longrightarrow> length (gs ! i) = n" using f(1) by (simp add: is_mat_row)
  have a0_nonneg: "0 \<le> a0 ! j" if "j < n" for j
    using that nn wn by (simp add: a0_def n_def)
  define c where "c = dot (gs ! 0) a0"
  have row0: "a0 ! j = c * gs ! 0 ! j" if "j < n" for j
    using qr_factor_row0[OF A n qr that] by (simp add: A0 gs_def c_def)
  have "1 = dot a0 a0" unfolding a0_def using wn by (simp add: dot_scale_self)
  also have "\<dots> = (\<Sum>j<n. (c * c) * (gs ! 0 ! j * gs ! 0 ! j))"
    unfolding dot_nth[OF refl] la0 by (rule sum.cong) (simp_all add: row0)
  also have "\<dots> = c * c * dot (gs ! 0) (gs ! 0)"
    using n by (simp add: dot_nth lgs sum_distrib_left)
  also have "\<dots> = c * c" using f(2)[OF n n] by simp
  finally have c2: "c * c = 1" by simp
  have "c\<^sup>2 = 1" using c2 by (simp add: power2_eq_square)
  then have "c = 1 \<or> c = - 1" by (simp only: power2_eq_1_iff)
  then have absc: "\<bar>c\<bar> = 1" by auto
  have gs0: "gs ! 0 ! j = c * a0 ! j" if "j < n" for j
  proof -
    have "c * a0 ! j = (c * c) * gs ! 0 ! j" using row0[OF that] by simp
    then show ?thesis using c2 by simp
  qed
  define P where "P = flip_columns gs"
  have P: "is_mat n n P" unfolding P_def using f(1) by (rule flip_columns_is_mat)
  have entry: "P ! i ! j = (if gs ! 0 ! j < 0 then - (gs ! i ! j) else gs ! i ! j)"
    if "i < n" "j < n" for i j
    unfolding P_def using f(1) that by (rule flip_columns_entry)
  have P0: "P ! 0 = a0"
  proof (rule nth_equalityI)
    show "length (P ! 0) = length a0" using P n la0 by (simp add: is_mat_row)
    fix j assume "j < length (P ! 0)"
    then have j: "j < n" using P n by (simp add: is_mat_row)
    have "P ! 0 ! j = \<bar>gs ! 0 ! j\<bar>" using entry[OF n j] by simp
    also have "\<dots> = a0 ! j" using gs0[OF j] a0_nonneg[OF j] absc by (simp add: abs_mult)
    finally show "P ! 0 ! j = a0 ! j" .
  qed
  have rows: "\<forall>i<n. \<forall>k<n. dot (P ! i) (P ! k) = (if i = k then 1 else 0)"
    using f(2) flip_dot[OF f(1)] by (simp add: P_def)
  have cols: "(\<Sum>i<n. P ! i ! j * P ! i ! k) = (if j = k then 1 else 0)" if jk: "j < n" "k < n" for j k
  proof -
    define sg where "sg l = (if gs ! 0 ! l < 0 then - 1 else (1::real))" for l
    have "(\<Sum>i<n. P ! i ! j * P ! i ! k) = (\<Sum>i<n. (sg j * sg k) * (gs ! i ! j * gs ! i ! k))"
      by (rule sum.cong) (use jk in \<open>simp_all add: entry sg_def\<close>)
    also have "\<dots> = sg j * sg k * (\<Sum>i<n. gs ! i ! j * gs ! i ! k)"
      by (simp add: sum_distrib_left)
    also have "\<dots> = (if j = k then 1 else 0)"
      using f(3)[OF jk] by (simp add: sg_def)
    finally show ?thesis .
  qed
  have "p_from_w qr w = Inr P"
    using j0 n by (auto simp: p_from_w_def P_def gs_def gram_schmidt_rows_def n_def)
  then show ?thesis using P P0 rows cols unfolding a0_def by blast
qed

subsection \<open>Products of arrays and vectors\<close>

lemma mat_vec_length [simp]: "length (mat_vec a v) = length a"
  by (simp add: mat_vec_def)

lemma mat_vec_nth: "i < length a \<Longrightarrow> mat_vec a v ! i = dot (a ! i) v"
  by (simp add: mat_vec_def)

lemma mat_vec_T_nth:
  assumes "is_mat r c p" "0 < r" "k < c" "length a = r"
  shows "mat_vec (mat_T p) a ! k = (\<Sum>i<r. p ! i ! k * a ! i)"
proof -
  have "mat_vec (mat_T p) a ! k = dot (col p k) a"
    using assms by (simp add: mat_vec_nth mat_T_nth is_mat_length[OF mat_T_is_mat])
  also have "\<dots> = (\<Sum>i<r. p ! i ! k * a ! i)"
    using assms by (simp add: dot_nth is_mat_length) (rule sum.cong, simp_all add: col_nth is_mat_length)
  finally show ?thesis .
qed

lemma mat_vec_T_length:
  assumes "is_mat r c p" "0 < r"
  shows "length (mat_vec (mat_T p) a) = c"
  using assms by (simp add: is_mat_length[OF mat_T_is_mat])

lemma mat_vec_mat_mul:
  assumes A: "is_mat r k a" and B: "is_mat k c b" and k: "0 < k" and v: "length v = c"
  shows "mat_vec (mat_mul a b) v = mat_vec a (mat_vec b v)"
proof (rule nth_equalityI)
  show "length (mat_vec (mat_mul a b) v) = length (mat_vec a (mat_vec b v))" by simp
  fix i assume "i < length (mat_vec (mat_mul a b) v)"
  then have i: "i < r" using A by (simp add: is_mat_length)
  have nc: "ncols b = c" using B k by (rule is_mat_ncols)
  have la: "length (a ! i) = k" using A i by (simp add: is_mat_row)
  have lb: "\<And>l. l < k \<Longrightarrow> length (b ! l) = c" using B by (simp add: is_mat_row)
  have lenb: "length b = k" using B by (rule is_mat_length)
  have "mat_vec (mat_mul a b) v ! i = dot (map (\<lambda>j. dot (a ! i) (col b j)) [0..<c]) v"
    using i A by (simp add: mat_vec_nth mat_mul_def nc is_mat_length)
  also have "\<dots> = (\<Sum>j<c. dot (a ! i) (col b j) * v ! j)"
    using v by (simp add: dot_nth)
  also have "\<dots> = (\<Sum>j<c. \<Sum>l<k. a ! i ! l * (b ! l ! j * v ! j))"
    by (rule sum.cong) (simp_all add: dot_nth la lenb col_nth sum_distrib_right mult.assoc)
  also have "\<dots> = (\<Sum>l<k. \<Sum>j<c. a ! i ! l * (b ! l ! j * v ! j))"
    by (rule sum.swap)
  also have "\<dots> = (\<Sum>l<k. a ! i ! l * dot (b ! l) v)"
    by (rule sum.cong) (simp_all add: dot_nth lb v sum_distrib_left)
  also have "\<dots> = dot (a ! i) (mat_vec b v)"
    by (simp add: dot_nth la lenb) (rule sum.cong, simp_all add: mat_vec_nth lenb)
  also have "\<dots> = mat_vec a (mat_vec b v) ! i"
    using i A by (simp add: mat_vec_nth is_mat_length)
  finally show "mat_vec (mat_mul a b) v ! i = mat_vec a (mat_vec b v) ! i" .
qed

lemma dot_mat_vec_T:
  assumes P: "is_mat n n p" and n: "0 < n" and y: "length y = n" and u: "length u = n"
  shows "dot (mat_vec (mat_T p) y) u = dot y (mat_vec p u)"
proof -
  have lp: "\<And>i. i < n \<Longrightarrow> length (p ! i) = n" using P by (simp add: is_mat_row)
  have lenp: "length p = n" using P by (rule is_mat_length)
  have "dot (mat_vec (mat_T p) y) u = (\<Sum>k<n. mat_vec (mat_T p) y ! k * u ! k)"
    using mat_vec_T_length[OF P n] u by (simp add: dot_nth)
  also have "\<dots> = (\<Sum>k<n. \<Sum>i<n. y ! i * (p ! i ! k * u ! k))"
    by (rule sum.cong) (simp_all add: mat_vec_T_nth[OF P n _ y] sum_distrib_right sum_distrib_left mult_ac)
  also have "\<dots> = (\<Sum>i<n. \<Sum>k<n. y ! i * (p ! i ! k * u ! k))"
    by (rule sum.swap)
  also have "\<dots> = (\<Sum>i<n. y ! i * dot (p ! i) u)"
    by (rule sum.cong) (simp_all add: dot_nth lp u sum_distrib_left)
  also have "\<dots> = dot y (mat_vec p u)"
    by (simp add: dot_nth y lenp) (rule sum.cong, simp_all add: mat_vec_nth lenp)
  finally show ?thesis .
qed

lemma mat_vec_orth_rows:
  assumes P: "is_mat n n p" and n: "0 < n" and a: "length a = n"
    and rows: "\<forall>i<n. \<forall>k<n. dot (p ! i) (p ! k) = (if i = k then 1 else 0)"
  shows "mat_vec p (mat_vec (mat_T p) a) = a"
proof (rule nth_equalityI)
  have lenp: "length p = n" using P by (rule is_mat_length)
  show "length (mat_vec p (mat_vec (mat_T p) a)) = length a" using lenp a by simp
  fix i assume "i < length (mat_vec p (mat_vec (mat_T p) a))"
  then have i: "i < n" using lenp by simp
  have lp: "\<And>i. i < n \<Longrightarrow> length (p ! i) = n" using P by (simp add: is_mat_row)
  have "mat_vec p (mat_vec (mat_T p) a) ! i = dot (p ! i) (mat_vec (mat_T p) a)"
    using i lenp by (simp add: mat_vec_nth)
  also have "\<dots> = (\<Sum>k<n. p ! i ! k * mat_vec (mat_T p) a ! k)"
    using lp[OF i] mat_vec_T_length[OF P n] by (simp add: dot_nth)
  also have "\<dots> = (\<Sum>k<n. \<Sum>j<n. a ! j * (p ! i ! k * p ! j ! k))"
    by (rule sum.cong) (simp_all add: mat_vec_T_nth[OF P n _ a] sum_distrib_left mult_ac)
  also have "\<dots> = (\<Sum>j<n. \<Sum>k<n. a ! j * (p ! i ! k * p ! j ! k))"
    by (rule sum.swap)
  also have "\<dots> = (\<Sum>j<n. a ! j * dot (p ! i) (p ! j))"
    by (rule sum.cong) (use i in \<open>simp_all add: dot_nth lp sum_distrib_left\<close>)
  also have "\<dots> = (\<Sum>j<n. (if i = j then 1 else 0) * a ! j)"
    by (rule sum.cong) (use i rows in \<open>simp_all\<close>)
  also have "\<dots> = a ! i" using i by (rule sum_delta_mult)
  finally show "mat_vec p (mat_vec (mat_T p) a) ! i = a ! i" .
qed

lemma mat_vec_orth_cols:
  assumes P: "is_mat n n p" and n: "0 < n" and v: "length v = n"
    and cols: "\<forall>j<n. \<forall>k<n. (\<Sum>i<n. p ! i ! j * p ! i ! k) = (if j = k then 1 else 0)"
  shows "mat_vec (mat_T p) (mat_vec p v) = v"
proof (rule nth_equalityI)
  have lenp: "length p = n" using P by (rule is_mat_length)
  show "length (mat_vec (mat_T p) (mat_vec p v)) = length v"
    using mat_vec_T_length[OF P n] v by simp
  fix k assume "k < length (mat_vec (mat_T p) (mat_vec p v))"
  then have k: "k < n" using mat_vec_T_length[OF P n] by simp
  have lp: "\<And>i. i < n \<Longrightarrow> length (p ! i) = n" using P by (simp add: is_mat_row)
  have "mat_vec (mat_T p) (mat_vec p v) ! k = (\<Sum>i<n. p ! i ! k * mat_vec p v ! i)"
    using k lenp by (simp add: mat_vec_T_nth[OF P n])
  also have "\<dots> = (\<Sum>i<n. \<Sum>j<n. v ! j * (p ! i ! k * p ! i ! j))"
    by (rule sum.cong) (simp_all add: mat_vec_nth lenp dot_nth lp v sum_distrib_left mult_ac)
  also have "\<dots> = (\<Sum>j<n. \<Sum>i<n. v ! j * (p ! i ! k * p ! i ! j))"
    by (rule sum.swap)
  also have "\<dots> = (\<Sum>j<n. v ! j * (\<Sum>i<n. p ! i ! k * p ! i ! j))"
    by (simp add: sum_distrib_left)
  also have "\<dots> = (\<Sum>j<n. (if k = j then 1 else 0) * v ! j)"
    by (rule sum.cong) (use k cols in \<open>simp_all\<close>)
  also have "\<dots> = v ! k" using k by (rule sum_delta_mult)
  finally show "mat_vec (mat_T p) (mat_vec p v) ! k = v ! k" .
qed

lemma mat_mul_is_mat:
  assumes "is_mat r k a" "is_mat k c b" "0 < k"
  shows "is_mat r c (mat_mul a b)"
  by (rule is_matI) (use assms in \<open>simp_all add: is_mat_length mat_mul_row_length is_mat_ncols\<close>)

lemma col_mat_mul: "j < ncols b \<Longrightarrow> col (mat_mul a b) j = mat_vec a (col b j)"
  by (simp add: col_def mat_mul_def mat_vec_def)

text \<open>
  A scenario \<open>x = P' y\<close> whose transformed coordinates are \<open>y = dy a\<close> is \<open>C u\<close> for
  \<open>u = P' a\<close>, and its quadratic form \<open>x \<cdot> u\<close> is \<open>y \<cdot> a\<close>.
\<close>

lemma transformed_quadratic_form:
  assumes P: "is_mat n n p" and n: "0 < n" and C: "is_mat n n c" and a: "length a = n"
    and rows: "\<forall>i<n. \<forall>k<n. dot (p ! i) (p ! k) = (if i = k then 1 else 0)"
    and cols: "\<forall>j<n. \<forall>k<n. (\<Sum>i<n. p ! i ! j * p ! i ! k) = (if j = k then 1 else 0)"
  shows "mat_vec c (mat_vec (mat_T p) a) = mat_vec (mat_T p) (mat_vec (dy_of p c) a)"
    and "dot (mat_vec (mat_T p) (mat_vec (dy_of p c) a)) (mat_vec (mat_T p) a) = dot (mat_vec (dy_of p c) a) a"
proof -
  define u where "u = mat_vec (mat_T p) a"
  have T: "is_mat n n (mat_T p)" using P n by (rule mat_T_is_mat)
  have lu: "length u = n" unfolding u_def using P n by (rule mat_vec_T_length)
  have CT: "is_mat n n (mat_mul c (mat_T p))" using C T n by (rule mat_mul_is_mat)
  have lcu: "length (mat_vec c u) = n" using C by (simp add: is_mat_length)
  have y: "mat_vec (dy_of p c) a = mat_vec p (mat_vec c u)"
    unfolding dy_of_def u_def
    by (simp add: mat_vec_mat_mul[OF P CT n a] mat_vec_mat_mul[OF C T n a])
  show 1: "mat_vec c (mat_vec (mat_T p) a) = mat_vec (mat_T p) (mat_vec (dy_of p c) a)"
    unfolding y using mat_vec_orth_cols[OF P n lcu cols] by (simp add: u_def)
  have ly: "length (mat_vec (dy_of p c) a) = n" unfolding y using P by (simp add: is_mat_length)
  have "dot (mat_vec (mat_T p) (mat_vec (dy_of p c) a)) u = dot (mat_vec (dy_of p c) a) (mat_vec p u)"
    using P n ly lu by (rule dot_mat_vec_T)
  also have "mat_vec p u = a" unfolding u_def using P n a rows by (rule mat_vec_orth_rows)
  finally show "dot (mat_vec (mat_T p) (mat_vec (dy_of p c) a)) (mat_vec (mat_T p) a) = dot (mat_vec (dy_of p c) a) a"
    by (simp add: u_def)
qed

lemma dy_of_symmetric:
  assumes P: "is_mat n n p" and n: "0 < n" and C: "is_mat n n c"
    and sym: "\<forall>i<n. \<forall>j<n. c ! i ! j = c ! j ! i" and ij: "i < n" "j < n"
  shows "dy_of p c ! i ! j = dy_of p c ! j ! i"
proof -
  have T: "is_mat n n (mat_T p)" using P n by (rule mat_T_is_mat)
  have CT: "is_mat n n (mat_mul c (mat_T p))" using C T n by (rule mat_mul_is_mat)
  have lp: "\<And>i. i < n \<Longrightarrow> length (p ! i) = n" using P by (simp add: is_mat_row)
  have lc: "\<And>i. i < n \<Longrightarrow> length (c ! i) = n" using C by (simp add: is_mat_row)
  have entry: "dy_of p c ! i ! j = (\<Sum>k<n. \<Sum>l<n. p ! i ! k * (c ! k ! l * p ! j ! l))"
    if ij: "i < n" "j < n" for i j
  proof -
    have "dy_of p c ! i ! j = dot (p ! i) (col (mat_mul c (mat_T p)) j)"
      unfolding dy_of_def using ij P CT n by (simp add: mat_mul_nth is_mat_length is_mat_ncols)
    also have "\<dots> = (\<Sum>k<n. p ! i ! k * mat_mul c (mat_T p) ! k ! j)"
      using ij lp C by (simp add: dot_nth is_mat_length)
         (rule sum.cong, simp_all add: col_nth is_mat_length)
    also have "\<dots> = (\<Sum>k<n. p ! i ! k * dot (c ! k) (p ! j))"
      by (rule sum.cong)
         (use ij C T n P in \<open>simp_all add: mat_mul_nth is_mat_length is_mat_ncols col_mat_T\<close>)
    also have "\<dots> = (\<Sum>k<n. \<Sum>l<n. p ! i ! k * (c ! k ! l * p ! j ! l))"
      by (rule sum.cong) (use ij in \<open>simp_all add: dot_nth lc lp sum_distrib_left\<close>)
    finally show ?thesis .
  qed
  have "dy_of p c ! i ! j = (\<Sum>k<n. \<Sum>l<n. p ! i ! k * (c ! k ! l * p ! j ! l))"
    using ij by (rule entry)
  also have "\<dots> = (\<Sum>l<n. \<Sum>k<n. p ! i ! k * (c ! k ! l * p ! j ! l))"
    by (rule sum.swap)
  also have "\<dots> = (\<Sum>l<n. \<Sum>k<n. p ! j ! l * (c ! l ! k * p ! i ! k))"
    by (intro sum.cong refl) (use sym in \<open>simp add: mult_ac\<close>)
  also have "\<dots> = dy_of p c ! j ! i"
    using entry[OF ij(2) ij(1)] by simp
  finally show ?thesis .
qed

subsection \<open>The partition of the transformed covariance\<close>

lemma dot_Cons [simp]: "dot (x # xs) (y # ys) = x * y + dot xs ys"
  by (simp add: dot_def)

lemma dot_Nil [simp]: "dot [] ys = 0"
  by (simp add: dot_def)

lemma dot_Nil2 [simp]: "dot xs [] = 0"
  by (simp add: dot_def)

lemma map2_same: "map2 f (map g xs) (map h xs) = map (\<lambda>x. f (g x) (h x)) xs"
  by (induction xs) simp_all

lemma dot_scale_right: "dot xs (map (\<lambda>x. k * x) ys) = k * dot xs ys"
proof (induction xs arbitrary: ys)
  case Nil then show ?case by simp
next
  case (Cons x xs) then show ?case by (cases ys) (simp_all add: algebra_simps)
qed

lemma dot_scale_left: "dot (map (\<lambda>x. k * x) xs) ys = k * dot xs ys"
proof (induction xs arbitrary: ys)
  case Nil then show ?case by simp
next
  case (Cons x xs) then show ?case by (cases ys) (simp_all add: algebra_simps)
qed

lemma dot_map2_affine:
  assumes "length xs = length ys" "length ys = length s"
  shows "dot (map2 (\<lambda>x y. f x + k * y) xs ys) s = dot (map f xs) s + k * dot ys s"
  using assms
proof (induction xs ys arbitrary: s rule: list_induct2)
  case Nil then show ?case by simp
next
  case (Cons x xs y ys) then show ?case by (cases s) (simp_all add: algebra_simps)
qed

lemma tl_row0_symmetric:
  assumes dy: "is_mat n n dy" and n: "0 < n" and sym: "\<forall>i<n. \<forall>j<n. dy ! i ! j = dy ! j ! i"
  shows "tl (dy ! 0) = map (\<lambda>r. r ! 0) (tl dy)"
proof (rule nth_equalityI)
  show "length (tl (dy ! 0)) = length (map (\<lambda>r. r ! 0) (tl dy))"
    using dy n by (simp add: is_mat_row is_mat_length)
  fix j assume "j < length (tl (dy ! 0))"
  then have j: "Suc j < n" using dy n by (simp add: is_mat_row)
  then show "tl (dy ! 0) ! j = map (\<lambda>r. r ! 0) (tl dy) ! j"
    using dy n sym by (simp add: nth_tl is_mat_row is_mat_length)
qed

lemma mat_vec_block:
  assumes dy: "is_mat n n dy" and n: "0 < n" and sym: "\<forall>i<n. \<forall>j<n. dy ! i ! j = dy ! j ! i"
  shows "mat_vec dy (\<alpha> # \<beta>) =
           (dy ! 0 ! 0 * \<alpha> + dot (map (\<lambda>r. r ! 0) (tl dy)) \<beta>) #
           map (\<lambda>r. r ! 0 * \<alpha> + dot (tl r) \<beta>) (tl dy)"
proof -
  obtain r0 rest where d: "dy = r0 # rest" using dy n by (cases dy) (auto simp: is_mat_def)
  have "length r0 = n" using dy n d by (auto simp: is_mat_def)
  then obtain h t0 where r0: "r0 = h # t0" using n by (cases r0) auto
  have t0: "t0 = map (\<lambda>r. r ! 0) rest"
    using tl_row0_symmetric[OF dy n sym] by (simp add: d r0)
  have rows: "dot r (\<alpha> # \<beta>) = r ! 0 * \<alpha> + dot (tl r) \<beta>" if "r \<in> set rest" for r
  proof -
    have "length r = n" using dy d that by (auto simp: is_mat_def list_all_iff)
    then obtain x xs where "r = x # xs" using n by (cases r) auto
    then show ?thesis by simp
  qed
  show ?thesis
    unfolding d r0 using rows t0 by (simp add: mat_vec_def)
qed

lemma dyh_of_mat_vec:
  assumes dy: "is_mat n n dy" and n: "0 < n" and s: "length s = n - 1"
  shows "mat_vec (dyh_of dy) s =
           map (\<lambda>r. dot (tl r) s - r ! 0 * dot (map (\<lambda>r. r ! 0) (tl dy)) s / (dy ! 0 ! 0)) (tl dy)"
proof -
  define d11 where "d11 = dy ! 0 ! 0"
  define dI1 where "dI1 = map (\<lambda>r. r ! 0) (tl dy)"
  have ldI1: "length dI1 = n - 1" using dy by (simp add: dI1_def is_mat_length)
  have dyh: "dyh_of dy = map (\<lambda>r. map2 (\<lambda>x y. x - y / d11) (tl r) (map (\<lambda>b. r ! 0 * b) dI1)) (tl dy)"
    unfolding dyh_of_def Let_def d11_def[symmetric] dI1_def[symmetric]
    by (simp add: dI1_def map2_same comp_def)
  have row: "dot (map2 (\<lambda>x y. x - y / d11) (tl r) (map (\<lambda>b. r ! 0 * b) dI1)) s
             = dot (tl r) s - r ! 0 * dot dI1 s / d11" if "r \<in> set (tl dy)" for r
  proof -
    have "r \<in> set dy" using that by (cases dy) auto
    then have lr: "length (tl r) = n - 1" using dy by (auto simp: is_mat_def list_all_iff)
    have "map2 (\<lambda>x y. x - y / d11) (tl r) (map (\<lambda>b. r ! 0 * b) dI1)
          = map2 (\<lambda>x y. x + (- (r ! 0) / d11) * y) (tl r) dI1"
      by (simp add: zip_map2 comp_def case_prod_beta)
    then show ?thesis
      using dot_map2_affine[of "tl r" dI1 s "\<lambda>x. x" "- (r ! 0) / d11"] lr ldI1 s by simp
  qed
  show ?thesis
    unfolding dyh d11_def[symmetric] dI1_def[symmetric] mat_vec_def
    by (simp add: row cong: map_cong)
qed

lemma dot_zeros [simp]: "dot xs (replicate k 0) = 0"
proof (induction xs arbitrary: k)
  case Nil then show ?case by simp
next
  case (Cons x xs) then show ?case by (cases k) simp_all
qed

text \<open>The central scenario in transformed coordinates, and its quadratic form.\<close>

lemma central_preimage:
  fixes f :: real
  assumes dy: "is_mat n n dy" and n: "0 < n" and sym: "\<forall>i<n. \<forall>j<n. dy ! i ! j = dy ! j ! i"
    and d: "dy ! 0 ! 0 \<noteq> 0"
  defines "a \<equiv> (f / (dy ! 0 ! 0)) # replicate (n - 1) 0"
  defines "y \<equiv> f # map (\<lambda>x. f * x / (dy ! 0 ! 0)) (map (\<lambda>r. r ! 0) (tl dy))"
  shows "mat_vec dy a = y" and "dot y a = f * f / (dy ! 0 ! 0)" and "length a = n"
proof -
  show "mat_vec dy a = y"
    unfolding a_def y_def mat_vec_block[OF dy n sym] using d by (simp add: comp_def mult.commute)
  show "dot y a = f * f / (dy ! 0 ! 0)" unfolding a_def y_def by simp
  show "length a = n" using n by (simp add: a_def)
qed

text \<open>The last alternative in transformed coordinates, and its quadratic form.\<close>

lemma last_preimage:
  fixes f r :: real
  assumes dy: "is_mat n n dy" and n: "0 < n" and sym: "\<forall>i<n. \<forall>j<n. dy ! i ! j = dy ! j ! i"
    and d: "dy ! 0 ! 0 \<noteq> 0" and s: "length s = n - 1" and zl: "mat_vec (dyh_of dy) s = zl"
  defines "dI1 \<equiv> map (\<lambda>r. r ! 0) (tl dy)"
  defines "a \<equiv> (f / (dy ! 0 ! 0) - r * dot dI1 s / (dy ! 0 ! 0)) # map (\<lambda>x. r * x) s"
  defines "y \<equiv> f # map2 (\<lambda>a z. r * z + a) (map (\<lambda>x. f * x / (dy ! 0 ! 0)) dI1) zl"
  shows "mat_vec dy a = y" and "dot y a = f * f / (dy ! 0 ! 0) + r * r * dot zl s" and "length a = n"
proof -
  define d11 where "d11 = dy ! 0 ! 0"
  define bs where "bs = dot dI1 s"
  have d11: "d11 \<noteq> 0" using d by (simp add: d11_def)
  have zl': "zl = map (\<lambda>row. dot (tl row) s - row ! 0 * bs / d11) (tl dy)"
    using dyh_of_mat_vec[OF dy n s] zl by (simp add: bs_def dI1_def d11_def)
  have ahy: "map (\<lambda>x. f * x / d11) dI1 = map (\<lambda>row. f * row ! 0 / d11) (tl dy)"
    by (simp add: dI1_def comp_def)
  have tail: "map2 (\<lambda>a z. r * z + a) (map (\<lambda>x. f * x / d11) dI1) zl
      = map (\<lambda>row. r * (dot (tl row) s - row ! 0 * bs / d11) + f * row ! 0 / d11) (tl dy)"
    unfolding ahy zl' by (rule map2_same)
  have "mat_vec dy a =
      (d11 * (f / d11 - r * bs / d11) + dot dI1 (map (\<lambda>x. r * x) s)) #
      map (\<lambda>row. row ! 0 * (f / d11 - r * bs / d11) + dot (tl row) (map (\<lambda>x. r * x) s)) (tl dy)"
    unfolding a_def mat_vec_block[OF dy n sym] by (simp add: d11_def bs_def dI1_def)
  also have "\<dots> = (d11 * (f / d11 - r * bs / d11) + r * bs) #
      map (\<lambda>row. row ! 0 * (f / d11 - r * bs / d11) + r * dot (tl row) s) (tl dy)"
    unfolding dot_scale_right bs_def ..
  also have "d11 * (f / d11 - r * bs / d11) + r * bs = f"
    using d11 by (simp add: field_simps)
  also have "map (\<lambda>row. row ! 0 * (f / d11 - r * bs / d11) + r * dot (tl row) s) (tl dy)
      = map (\<lambda>row. r * (dot (tl row) s - row ! 0 * bs / d11) + f * row ! 0 / d11) (tl dy)"
    by (rule map_cong) (simp_all add: algebra_simps diff_divide_distrib)
  finally have "mat_vec dy a =
      f # map (\<lambda>row. r * (dot (tl row) s - row ! 0 * bs / d11) + f * row ! 0 / d11) (tl dy)" .
  then show 1: "mat_vec dy a = y"
    unfolding y_def d11_def[symmetric] by (simp only: tail)
  have lz: "length zl = n - 1" using zl' dy by (simp add: is_mat_length)
  have ldI1: "length dI1 = n - 1" using dy by (simp add: dI1_def is_mat_length)
  have e1: "map (\<lambda>x. f * x / d11) dI1 = map (\<lambda>x. (f / d11) * x) dI1" by simp
  have e: "dot (map (\<lambda>x. f * x / d11) dI1) s = f / d11 * bs"
    unfolding e1 by (simp only: dot_scale_left bs_def)
  have "dot (map2 (\<lambda>a z. r * z + a) (map (\<lambda>x. f * x / d11) dI1) zl) s
        = dot (map2 (\<lambda>a z. a + r * z) (map (\<lambda>x. f * x / d11) dI1) zl) s"
    by (simp add: add.commute)
  also have "\<dots> = dot (map (\<lambda>x. x) (map (\<lambda>x. f * x / d11) dI1)) s + r * dot zl s"
    by (rule dot_map2_affine) (simp_all add: lz ldI1 s)
  finally have t: "dot (map2 (\<lambda>a z. r * z + a) (map (\<lambda>x. f * x / d11) dI1) zl) s
      = f / d11 * bs + r * dot zl s"
    by (simp only: list.map_ident e)
  have "dot y a = f * (f / d11 - r * bs / d11) +
      dot (map2 (\<lambda>a z. r * z + a) (map (\<lambda>x. f * x / d11) dI1) zl) (map (\<lambda>x. r * x) s)"
    unfolding y_def a_def d11_def[symmetric] bs_def[symmetric] by simp
  also have "\<dots> = f * (f / d11 - r * bs / d11) + r * (f / d11 * bs + r * dot zl s)"
    unfolding dot_scale_right t ..
  also have "\<dots> = f * f / d11 + r * r * dot zl s"
    by (simp add: algebra_simps diff_divide_distrib)
  finally show "dot y a = f * f / (dy ! 0 ! 0) + r * r * dot zl s"
    by (simp add: d11_def)
  show "length a = n" using n s by (simp add: a_def)
qed

subsection \<open>The values that \<^verbatim>\<open>comp_scenarios\<close> computes\<close>

lemma mat_vec_scale: "mat_vec c (map (\<lambda>x. k * x) w) = map (\<lambda>x. k * x) (mat_vec c w)"
  by (simp add: mat_vec_def dot_scale_right)

lemma first_comp_value:
  assumes p0: "p ! 0 = map (\<lambda>x. x / norm_v w) w" and p: "p \<noteq> []"
    and k: "dot w (mat_vec c w) \<noteq> 0"
  shows "mat_vec p (map (\<lambda>x. L * x / dot w (mat_vec c w)) (mat_vec c w)) ! 0 = L / norm_v w"
proof -
  define d where "d = dot w (mat_vec c w)"
  have 1: "map (\<lambda>x. x / norm_v w) w = map (\<lambda>x. (1 / norm_v w) * x) w" by simp
  have 2: "map (\<lambda>x. L * x / d) (mat_vec c w) = map (\<lambda>x. (L / d) * x) (mat_vec c w)" by simp
  have "mat_vec p (map (\<lambda>x. L * x / d) (mat_vec c w)) ! 0
        = dot (p ! 0) (map (\<lambda>x. L * x / d) (mat_vec c w))"
    using p by (simp add: mat_vec_nth)
  also have "\<dots> = (1 / norm_v w) * ((L / d) * d)"
    unfolding p0 1 2 dot_scale_left dot_scale_right by (simp add: d_def)
  also have "\<dots> = L / norm_v w" using k by (simp add: d_def)
  finally show ?thesis by (simp add: d_def)
qed

lemma d11_value:
  assumes P: "is_mat n n p" and n: "0 < n" and C: "is_mat n n c"
    and p0: "p ! 0 = map (\<lambda>x. x / norm_v w) w"
  shows "dy_of p c ! 0 ! 0 = dot w (mat_vec c w) / (norm_v w * norm_v w)"
proof -
  have T: "is_mat n n (mat_T p)" using P n by (rule mat_T_is_mat)
  have CT: "is_mat n n (mat_mul c (mat_T p))" using C T n by (rule mat_mul_is_mat)
  have 1: "map (\<lambda>x. x / norm_v w) w = map (\<lambda>x. (1 / norm_v w) * x) w" by simp
  have "dy_of p c ! 0 ! 0 = dot (p ! 0) (col (mat_mul c (mat_T p)) 0)"
    unfolding dy_of_def using P CT n by (simp add: mat_mul_nth is_mat_length is_mat_ncols)
  also have "col (mat_mul c (mat_T p)) 0 = mat_vec c (col (mat_T p) 0)"
    using T n by (simp add: col_mat_mul is_mat_ncols)
  also have "col (mat_T p) 0 = p ! 0" using P n by (rule col_mat_T)
  also have "dot (p ! 0) (mat_vec c (p ! 0)) = (1 / norm_v w) * ((1 / norm_v w) * dot w (mat_vec c w))"
    unfolding p0 1 mat_vec_scale dot_scale_left dot_scale_right by simp
  finally show ?thesis by simp
qed

lemma dy_of_is_mat:
  assumes "is_mat n n p" "0 < n" "is_mat n n c"
  shows "is_mat n n (dy_of p c)"
  unfolding dy_of_def
  by (intro mat_mul_is_mat[OF assms(1) _ assms(2)] mat_mul_is_mat[OF assms(3) _ assms(2)]
      mat_T_is_mat[OF assms(1,2)])

lemma argsort_length [simp]: "length (argsort v) = length v"
  by (simp add: argsort_def)

lemma v_of_is_mat:
  assumes "is_mat k k vect" "length vals = k" "nat (M - 1) \<le> k"
  shows "is_mat k (nat (M - 1)) (v_of vals vect M)"
  by (rule is_matI) (use assms in \<open>simp_all add: v_of_def Let_def is_mat_length\<close>)

lemma collect_map:
  assumes "\<forall>x\<in>set xs. \<exists>v. g x = Inr v"
  shows "\<exists>vs. collect (map g xs) = Inr vs \<and> length vs = length xs \<and>
              (\<forall>i<length xs. g (xs ! i) = Inr (vs ! i))"
  using assms
proof (induction xs)
  case Nil then show ?case by simp
next
  case (Cons x xs)
  obtain v where v: "g x = Inr v" using Cons.prems by auto
  obtain vs where vs: "collect (map g xs) = Inr vs" "length vs = length xs"
    "\<forall>i<length xs. g (xs ! i) = Inr (vs ! i)"
    using Cons.IH Cons.prems by auto
  have "collect (map g (x # xs)) = Inr (v # vs)" by (simp add: v vs(1))
  moreover have "\<forall>i<length (x # xs). g ((x # xs) ! i) = Inr ((v # vs) ! i)"
    using v vs(3) by (auto simp: nth_Cons split: nat.splits)
  ultimately show ?case using vs(2) by (intro exI[of _ "v # vs"]) simp
qed

text \<open>The columns \<^verbatim>\<open>Scenario_0\<close> and \<^verbatim>\<open>Scenario_M\<close> before the rotation back.\<close>

lemma df_columns:
  fixes f r :: real
  assumes z: "is_mat k m z" and m: "0 < m" and a: "length ahy = k"
  defines "df \<equiv> replicate (Suc m) f # map2 (#) ahy (map2 (\<lambda>a. map (\<lambda>x. r * x + a)) ahy z)"
  shows "is_mat (Suc k) (Suc m) df"
    and "col df 0 = f # ahy"
    and "col df m = f # map2 (\<lambda>a zl. r * zl + a) ahy (map last z)"
proof -
  define rz where "rz = map2 (\<lambda>a. map (\<lambda>x. r * x + a)) ahy z"
  have lz: "length z = k" using z by (rule is_mat_length)
  have lrz: "length rz = k" by (simp add: rz_def a lz)
  have rzi: "rz ! i = map (\<lambda>x. r * x + ahy ! i) (z ! i)" if "i < k" for i
    using that by (simp add: rz_def a lz)
  have lzi: "length (z ! i) = m" if "i < k" for i using z that by (simp add: is_mat_row)
  have df: "df = replicate (Suc m) f # map2 (#) ahy rz" by (simp add: df_def rz_def)
  show "is_mat (Suc k) (Suc m) df"
  proof (rule is_matI)
    show "length df = Suc k" by (simp add: df a lrz)
    fix i assume "i < Suc k"
    then show "length (df ! i) = Suc m"
      by (cases i) (simp_all add: df a lrz rzi lzi)
  qed
  show "col df 0 = f # ahy"
  proof -
    have "map (\<lambda>row. row ! 0) (map2 (#) ahy rz) = ahy"
      by (rule nth_equalityI) (simp_all add: a lrz)
    then show ?thesis by (simp add: col_def df)
  qed
  show "col df m = f # map2 (\<lambda>a zl. r * zl + a) ahy (map last z)"
  proof -
    have "map (\<lambda>row. row ! m) (map2 (#) ahy rz) = map2 (\<lambda>a zl. r * zl + a) ahy (map last z)"
    proof (rule nth_equalityI)
      show "length (map (\<lambda>row. row ! m) (map2 (#) ahy rz)) =
            length (map2 (\<lambda>a zl. r * zl + a) ahy (map last z))"
        by (simp add: a lrz lz)
      fix i assume "i < length (map (\<lambda>row. row ! m) (map2 (#) ahy rz))"
      then have i: "i < k" by (simp add: a lrz)
      obtain m' where m': "m = Suc m'" using m by (cases m) auto
      have ne: "z ! i \<noteq> []" using lzi[OF i] m by auto
      have "last (z ! i) = z ! i ! m'" using lzi[OF i] ne by (simp add: last_conv_nth m')
      then show "map (\<lambda>row. row ! m) (map2 (#) ahy rz) ! i =
                 map2 (\<lambda>a zl. r * zl + a) ahy (map last z) ! i"
        using i lzi[OF i] by (simp add: a lrz lz rzi m')
    qed
    then show ?thesis using m by (simp add: col_def df)
  qed
qed

lemma simplex_shape:
  assumes "2 \<le> M"
    and "qr_factor (mat_T (simplex_start (nat M))) (qr (mat_T (simplex_start (nat M))))"
    and "standard_simplex_vertices qr M = Inr t"
  shows "is_mat (nat M - 1) (nat M) t"
proof -
  obtain c where "standard_simplex_vertices qr M =
      Inr (map (\<lambda>i. map (\<lambda>j. c * gram_schmidt_rows qr (simplex_start (nat M)) ! Suc i ! j)
                 ([1..<nat M] @ [0])) [0..<nat M - 1])"
    using simplex_closed[of M qr] assms(1,2) by blast
  then have t: "t = map (\<lambda>i. map (\<lambda>j. c * gram_schmidt_rows qr (simplex_start (nat M)) ! Suc i ! j)
                 ([1..<nat M] @ [0])) [0..<nat M - 1]"
    using assms(3) by simp
  show ?thesis unfolding t using assms(1) by (intro is_matI) simp_all
qed

subsection \<open>The vertices of the simplex against the last one\<close>

lemma qr_factor_lower:
  assumes A: "is_mat m m a" and m: "0 < m" and qr: "qr_factor (mat_T a) q"
    and ji: "j < i" "i < m"
  shows "dot (mat_T q ! i) (a ! j) = 0"
proof -
  define p where "p = mat_T q"
  note f = qr_factor_rows[OF A m qr, folded p_def]
  have Ta: "is_mat m m (mat_T a)" using A m by (rule mat_T_is_mat)
  have lenTa: "length (mat_T a) = m" using Ta by (rule is_mat_length)
  have R: "upper_triangular (mat_mul (mat_T q) (mat_T a))"
    using qr by (simp add: qr_factor_def)
  have "mat_mul (mat_T q) (mat_T a) ! i ! j = dot (p ! i) (col (mat_T a) j)"
    using ji f(1) Ta m by (simp add: mat_mul_nth p_def[symmetric] is_mat_length is_mat_ncols)
  also have "col (mat_T a) j = a ! j" using A by (rule col_mat_T) (use ji in simp)
  finally have "mat_mul (mat_T q) (mat_T a) ! i ! j = dot (p ! i) (a ! j)" .
  moreover have "mat_mul (mat_T q) (mat_T a) ! i ! j = 0"
    using R ji f(1) by (intro upper_triangular_entry) (simp_all add: p_def[symmetric] is_mat_length)
  ultimately show ?thesis by (simp add: p_def)
qed

lemma dot_eye_row:
  assumes "length r = m" "j < m"
  shows "dot r (eye m ! j) = r ! j"
proof -
  have l: "length (eye m ! j) = m" using assms(2) by (simp add: eye_def)
  have "dot r (eye m ! j) = (\<Sum>k<m. r ! k * eye m ! j ! k)"
    using assms(1) l by (simp add: dot_nth)
  also have "\<dots> = (\<Sum>k<m. (if j = k then 1 else 0) * r ! k)"
    by (rule sum.cong) (use assms(2) in \<open>simp_all add: eye_nth\<close>)
  finally show ?thesis using assms(2) by (simp add: sum_delta_mult)
qed

lemma sum_ends:
  fixes g :: "nat \<Rightarrow> real"
  assumes "2 \<le> m" "\<And>k. 0 < k \<Longrightarrow> k < m - 1 \<Longrightarrow> g k = 0"
  shows "(\<Sum>k<m. g k) = g 0 + g (m - 1)"
proof -
  have "(\<Sum>k<m. g k) = (\<Sum>k<m. if k = 0 then g 0 else if k = m - 1 then g (m - 1) else 0)"
    by (rule sum.cong) (use assms in auto)
  also have "\<dots> = (\<Sum>k<m. (if k = 0 then g 0 else 0) + (if k = m - 1 then g (m - 1) else 0))"
    by (rule sum.cong) (use assms(1) in auto)
  also have "\<dots> = g 0 + g (m - 1)"
    using assms(1) by (simp add: sum.distrib sum.delta)
  finally show ?thesis .
qed

text \<open>The last row of \<open>q.T\<close>, and the entries of the other rows in the columns 0 and \<open>m - 1\<close>.\<close>

lemma simplex_last_row:
  assumes m: "2 \<le> m" and qr: "qr_factor (mat_T (simplex_start m)) q"
  defines "p \<equiv> mat_T q"
  shows "p ! (m - 1) ! 0 = - p ! (m - 1) ! (m - 1)"
    and "\<And>i. 0 < i \<Longrightarrow> i < m - 1 \<Longrightarrow> p ! i ! 0 = p ! i ! (m - 1)"
proof -
  have m0: "0 < m" using m by simp
  note f = simplex_rows[OF m0 qr, folded p_def]
  note g = qr_factor_rows[OF simplex_start_is_mat m0 qr, folded p_def]
  have lp: "length (p ! i) = m" if "i < m" for i using f(1) that by (simp add: is_mat_row)
  have z: "p ! i ! j = 0" if "0 < j" "j < i" "i < m" for i j
  proof -
    have "simplex_start m ! j = eye m ! j" using that by (simp add: simplex_start_def)
    then have "dot (p ! i) (eye m ! j) = 0"
      using qr_factor_lower[OF simplex_start_is_mat m0 qr that(2,3)] by (simp add: p_def)
    then show ?thesis using that lp[of i] by (simp add: dot_eye_row)
  qed
  have "(\<Sum>k<m. p ! (m - 1) ! k) = p ! (m - 1) ! 0 + p ! (m - 1) ! (m - 1)"
    using m by (intro sum_ends) (simp_all add: z)
  then show l0: "p ! (m - 1) ! 0 = - p ! (m - 1) ! (m - 1)"
    using f(3)[of "m - 1"] m by simp
  have one: "dot (p ! (m - 1)) (p ! (m - 1)) = 1" using g(2)[of "m - 1" "m - 1"] m by simp
  have "dot (p ! (m - 1)) (p ! (m - 1)) = (\<Sum>k<m. p ! (m - 1) ! k * p ! (m - 1) ! k)"
    using lp[of "m - 1"] m by (simp add: dot_nth)
  also have "\<dots> = p ! (m - 1) ! 0 * p ! (m - 1) ! 0 + p ! (m - 1) ! (m - 1) * p ! (m - 1) ! (m - 1)"
    using m by (intro sum_ends) (simp_all add: z)
  finally have ne: "p ! (m - 1) ! 0 \<noteq> 0" using one l0 by auto
  show "p ! i ! 0 = p ! i ! (m - 1)" if i: "0 < i" "i < m - 1" for i
  proof -
    have "dot (p ! i) (p ! (m - 1)) = 0" using g(2)[of i "m - 1"] i by simp
    moreover have "dot (p ! i) (p ! (m - 1)) = (\<Sum>k<m. p ! i ! k * p ! (m - 1) ! k)"
      using lp[of "m - 1"] lp[of i] i by (simp add: dot_nth)
    moreover have "(\<Sum>k<m. p ! i ! k * p ! (m - 1) ! k)
        = p ! i ! 0 * p ! (m - 1) ! 0 + p ! i ! (m - 1) * p ! (m - 1) ! (m - 1)"
      using m by (intro sum_ends) (simp_all add: z)
    ultimately have "p ! (m - 1) ! 0 * (p ! i ! 0 - p ! i ! (m - 1)) = 0"
      using l0 by (simp add: algebra_simps)
    then show ?thesis using ne by simp
  qed
qed

text \<open>
  The last two vertices of the simplex differ in the sign of their last coordinate
  only.
\<close>

lemma simplex_last_two:
  assumes M: "2 \<le> M"
    and qr: "qr_factor (mat_T (simplex_start (nat M))) (qr (mat_T (simplex_start (nat M))))"
    and t: "standard_simplex_vertices qr M = Inr t"
  shows "\<And>i. i < nat M - 2 \<Longrightarrow> t ! i ! (nat M - 1) = t ! i ! (nat M - 2)"
    and "t ! (nat M - 2) ! (nat M - 1) = - t ! (nat M - 2) ! (nat M - 2)"
proof -
  define m where "m = nat M"
  define p where "p = gram_schmidt_rows qr (simplex_start m)"
  have m: "2 \<le> m" "0 < m" using M by (simp_all add: m_def)
  have q: "qr_factor (mat_T (simplex_start m)) (qr (mat_T (simplex_start m)))"
    using qr by (simp add: m_def)
  have pq: "p = mat_T (qr (mat_T (simplex_start m)))" by (simp add: p_def gram_schmidt_rows_def)
  note l = simplex_last_row[OF m(1) q, folded pq]
  let ?cls = "[1..<m] @ [0]"
  obtain c where "standard_simplex_vertices qr M =
       Inr (map (\<lambda>i. map (\<lambda>j. c * p ! Suc i ! j) ?cls) [0..<m - 1])"
    using simplex_closed[of M qr] M qr unfolding m_def p_def by blast
  then have t: "t = map (\<lambda>i. map (\<lambda>j. c * p ! Suc i ! j) ?cls) [0..<m - 1]"
    using t by simp
  have lcls: "length ?cls = m" using m by simp
  have entry: "t ! i ! j = c * p ! Suc i ! (?cls ! j)" if "i < m - 1" "j < m" for i j
  proof -
    have "t ! i = map (\<lambda>j. c * p ! Suc i ! j) ?cls" using that by (simp add: t)
    also have "\<dots> ! j = c * p ! Suc i ! (?cls ! j)"
      by (rule nth_map) (simp only: lcls that)
    finally show ?thesis .
  qed
  have m1: "m - 1 < m" and m2: "m - 2 < m" using m by simp_all
  have c1: "?cls ! (m - 1) = 0" using cyclic_nth[of "m - 1" m] m by simp
  have c2: "?cls ! (m - 2) = m - 1" using cyclic_nth[of "m - 2" m] m by auto
  have e1: "t ! i ! (m - 1) = c * p ! Suc i ! 0" if "i < m - 1" for i
    unfolding entry[OF that, of "m - 1", OF m1] c1 ..
  have e2: "t ! i ! (m - 2) = c * p ! Suc i ! (m - 1)" if "i < m - 1" for i
    unfolding entry[OF that, of "m - 2", OF m2] c2 ..
  show "t ! i ! (nat M - 1) = t ! i ! (nat M - 2)" if "i < nat M - 2" for i
  proof -
    have i: "i < m - 1" "0 < Suc i" "Suc i < m - 1" using that by (simp_all add: m_def)
    show ?thesis
      unfolding m_def[symmetric] e1[OF i(1)] e2[OF i(1)] l(2)[OF i(2,3)] ..
  qed
  have s: "Suc (m - 2) = m - 1" "m - 2 < m - 1" using m by simp_all
  show "t ! (nat M - 2) ! (nat M - 1) = - t ! (nat M - 2) ! (nat M - 2)"
    unfolding m_def[symmetric] e1[OF s(2)] e2[OF s(2)] s(1) using l(1) by simp
qed

lemma sum_upto:
  fixes g :: "nat \<Rightarrow> real"
  assumes "i < m" "\<And>k. i < k \<Longrightarrow> k < m \<Longrightarrow> g k = 0"
  shows "(\<Sum>k<m. g k) = (\<Sum>k<i. g k) + g i"
proof -
  have "sum g {..<m} = sum g {..<Suc i}"
    by (rule sum.mono_neutral_right) (use assms in auto)
  then show ?thesis by simp
qed

lemma simplex_rows_zero:
  assumes m: "0 < m" and qr: "qr_factor (mat_T (simplex_start m)) q"
    and ji: "0 < j" "j < i" "i < m"
  shows "mat_T q ! i ! j = 0"
proof -
  define p where "p = mat_T q"
  note f = simplex_rows[OF m qr, folded p_def]
  have lp: "length (p ! i) = m" using f(1) ji by (simp add: is_mat_row)
  have "simplex_start m ! j = eye m ! j" using ji by (simp add: simplex_start_def)
  then have "dot (p ! i) (eye m ! j) = 0"
    using qr_factor_lower[OF simplex_start_is_mat m qr ji(2,3)] by (simp add: p_def)
  then show ?thesis using ji lp by (simp add: dot_eye_row p_def)
qed

text \<open>
  Row \<open>i\<close> of \<open>q.T\<close> is a combination of the rows \<open>0 .. i\<close> of the array \<open>a\<close>: it has
  the same entry in column 0 and in every column after \<open>i\<close>.
\<close>

lemma simplex_rows_common:
  assumes m: "0 < m" and qr: "qr_factor (mat_T (simplex_start m)) q"
  defines "p \<equiv> mat_T q"
  shows "i < j \<Longrightarrow> j < m \<Longrightarrow> p ! i ! j = p ! i ! 0"
proof (induction i arbitrary: j rule: less_induct)
  case (less i)
  note f = simplex_rows[OF m qr, folded p_def]
  show ?case
  proof (cases "i = 0")
    case True
    then show ?thesis using f(4)[of j 0] less.prems m by simp
  next
    case False
    then have i: "0 < i" "i < m" using less.prems by simp_all
    have zero: "p ! k ! i = 0" if "i < k" "k < m" for k
      using simplex_rows_zero[OF m qr i(1) that] by (simp add: p_def)
    define A0 where "A0 = (\<Sum>k<i. p ! k ! i * p ! k ! 0)"
    have E: "(\<Sum>k<i. p ! k ! i * p ! k ! x) + p ! i ! i * p ! i ! x = (if i = x then 1 else 0)"
      if "x < m" for x
    proof -
      have "(\<Sum>k<m. p ! k ! i * p ! k ! x) = (\<Sum>k<i. p ! k ! i * p ! k ! x) + p ! i ! i * p ! i ! x"
        using i(2) by (rule sum_upto) (simp add: zero)
      then show ?thesis using f(2)[OF i(2) that] by simp
    qed
    have e0: "A0 + p ! i ! i * p ! i ! 0 = 0"
      using E[OF m] i(1) by (simp add: A0_def)
    have "(\<Sum>k<i. p ! k ! i * p ! k ! j) = A0"
      unfolding A0_def by (rule sum.cong) (use less.IH less.prems in simp_all)
    then have ej: "A0 + p ! i ! i * p ! i ! j = 0"
      using E[OF less.prems(2)] less.prems(1) by simp
    have "(\<Sum>k<i. p ! k ! i * p ! k ! i) = A0"
      unfolding A0_def by (rule sum.cong) (use less.IH i in simp_all)
    then have ei: "A0 + p ! i ! i * p ! i ! i = 1"
      using E[OF i(2)] by simp
    have "p ! i ! i * p ! i ! i - p ! i ! i * p ! i ! 0 = 1" using e0 ei by linarith
    then have ne: "p ! i ! i \<noteq> 0" by auto
    have "p ! i ! i * p ! i ! j = p ! i ! i * p ! i ! 0" using e0 ej by linarith
    then show ?thesis using ne by simp
  qed
qed

text \<open>
  The vertices against the last one: vertex \<open>j\<close> has the coordinates of the last vertex
  before \<open>j\<close>, zeros after \<open>j\<close>, and the same norm.
\<close>

lemma simplex_vertex_shape:
  assumes M: "2 \<le> M"
    and qr: "qr_factor (mat_T (simplex_start (nat M))) (qr (mat_T (simplex_start (nat M))))"
    and t: "standard_simplex_vertices qr M = Inr t"
    and j: "j < nat M - 1"
  shows "\<And>l. l < j \<Longrightarrow> t ! l ! j = t ! l ! (nat M - 1)"
    and "\<And>l. j < l \<Longrightarrow> l < nat M - 1 \<Longrightarrow> t ! l ! j = 0"
    and "(\<Sum>l<nat M - 1. t ! l ! j * t ! l ! j) = (\<Sum>l<nat M - 1. t ! l ! (nat M - 1) * t ! l ! (nat M - 1))"
proof -
  define m where "m = nat M"
  define p where "p = gram_schmidt_rows qr (simplex_start m)"
  have m: "2 \<le> m" "0 < m" using M by (simp_all add: m_def)
  have j: "j < m - 1" using j by (simp add: m_def)
  have q: "qr_factor (mat_T (simplex_start m)) (qr (mat_T (simplex_start m)))"
    using qr by (simp add: m_def)
  have pq: "p = mat_T (qr (mat_T (simplex_start m)))" by (simp add: p_def gram_schmidt_rows_def)
  note f = simplex_rows[OF m(2) q, folded pq]
  let ?cls = "[1..<m] @ [0]"
  obtain c where "standard_simplex_vertices qr M =
       Inr (map (\<lambda>i. map (\<lambda>j. c * p ! Suc i ! j) ?cls) [0..<m - 1])"
    using simplex_closed[of M qr] M qr unfolding m_def p_def by blast
  then have t: "t = map (\<lambda>i. map (\<lambda>j. c * p ! Suc i ! j) ?cls) [0..<m - 1]"
    using t by simp
  have lcls: "length ?cls = m" using m by simp
  have entry: "t ! i ! k = c * p ! Suc i ! (?cls ! k)" if "i < m - 1" "k < m" for i k
  proof -
    have "t ! i = map (\<lambda>j. c * p ! Suc i ! j) ?cls" using that by (simp add: t)
    also have "\<dots> ! k = c * p ! Suc i ! (?cls ! k)"
      by (rule nth_map) (simp only: lcls that)
    finally show ?thesis .
  qed
  have m1: "m - 1 < m" and jm: "j < m" using m j by simp_all
  have c1: "?cls ! (m - 1) = 0" using cyclic_nth[of "m - 1" m] m by simp
  have cj: "?cls ! j = Suc j" using cyclic_nth[of j m] j by simp
  have e1: "t ! l ! (m - 1) = c * p ! Suc l ! 0" if "l < m - 1" for l
    unfolding entry[OF that m1] c1 ..
  have ej: "t ! l ! j = c * p ! Suc l ! Suc j" if "l < m - 1" for l
    unfolding entry[OF that jm] cj ..
  show "t ! l ! j = t ! l ! (nat M - 1)" if "l < j" for l
  proof -
    have l: "l < m - 1" "Suc l < Suc j" "Suc j < m" using that j by simp_all
    have "p ! Suc l ! Suc j = p ! Suc l ! 0"
      using simplex_rows_common[OF m(2) q l(2,3)] by (simp add: pq)
    then show ?thesis unfolding m_def[symmetric] e1[OF l(1)] ej[OF l(1)] by simp
  qed
  show "t ! l ! j = 0" if "j < l" "l < nat M - 1" for l
  proof -
    have l: "l < m - 1" "0 < Suc j" "Suc j < Suc l" "Suc l < m" using that by (simp_all add: m_def)
    have "p ! Suc l ! Suc j = 0"
      using simplex_rows_zero[OF m(2) q l(2,3,4)] by (simp add: pq)
    then show ?thesis unfolding ej[OF l(1)] by simp
  qed
  have colsum: "(\<Sum>l<m - 1. p ! Suc l ! a * p ! Suc l ! a) = 1 - p ! 0 ! a * p ! 0 ! a" if "a < m" for a
  proof -
    obtain n' where n': "m = Suc n'" using m(2) by (cases m) auto
    have "(\<Sum>i<Suc n'. p ! i ! a * p ! i ! a) = p ! 0 ! a * p ! 0 ! a + (\<Sum>l<n'. p ! Suc l ! a * p ! Suc l ! a)"
      by (rule sum.lessThan_Suc_shift)
    moreover have "(\<Sum>i<Suc n'. p ! i ! a * p ! i ! a) = 1"
      using f(2)[OF that that] by (simp add: n')
    ultimately show ?thesis by (simp add: n')
  qed
  have "(\<Sum>l<m - 1. t ! l ! j * t ! l ! j) = (\<Sum>l<m - 1. c * c * (p ! Suc l ! Suc j * p ! Suc l ! Suc j))"
    by (rule sum.cong) (simp_all add: ej)
  also have "\<dots> = c * c * (\<Sum>l<m - 1. p ! Suc l ! Suc j * p ! Suc l ! Suc j)"
    by (simp only: sum_distrib_left)
  also have "(\<Sum>l<m - 1. p ! Suc l ! Suc j * p ! Suc l ! Suc j) = 1 - p ! 0 ! Suc j * p ! 0 ! Suc j"
    by (rule colsum) (use j in simp)
  also have "p ! 0 ! Suc j = p ! 0 ! 0" using f(4)[of "Suc j" 0] j m by simp
  also have "1 - p ! 0 ! 0 * p ! 0 ! 0 = (\<Sum>l<m - 1. p ! Suc l ! 0 * p ! Suc l ! 0)"
    by (simp only: colsum[OF m(2)])
  also have "c * c * (\<Sum>l<m - 1. p ! Suc l ! 0 * p ! Suc l ! 0)
      = (\<Sum>l<m - 1. c * c * (p ! Suc l ! 0 * p ! Suc l ! 0))"
    by (simp only: sum_distrib_left)
  also have "\<dots> = (\<Sum>l<m - 1. t ! l ! (m - 1) * t ! l ! (m - 1))"
  proof (rule sum.cong)
    fix x assume "x \<in> {..<m - 1}"
    then have x: "x < m - 1" by simp
    show "c * c * (p ! Suc x ! 0 * p ! Suc x ! 0) = t ! x ! (m - 1) * t ! x ! (m - 1)"
      unfolding e1[OF x] by (simp add: algebra_simps)
  qed simp
  finally show "(\<Sum>l<nat M - 1. t ! l ! j * t ! l ! j) =
      (\<Sum>l<nat M - 1. t ! l ! (nat M - 1) * t ! l ! (nat M - 1))"
    by (simp only: m_def)
qed

subsection \<open>Quadratic forms along eigenvectors\<close>

lemma dot_commute: "dot x y = dot y x"
  unfolding dot_def
proof (induction x arbitrary: y)
  case Nil then show ?case by simp
next
  case (Cons a x) then show ?case by (cases y) (simp_all add: mult.commute)
qed

lemma dot_sub_scaled:
  assumes "length xs = length ys" "length ys = length s"
  shows "dot (map2 (\<lambda>x y. x - k * y) xs ys) s = dot xs s - k * dot ys s"
  using assms
proof (induction xs ys arbitrary: s rule: list_induct2)
  case Nil then show ?case by simp
next
  case (Cons x xs y ys) then show ?case by (cases s) (simp_all add: algebra_simps)
qed

lemma mat_vec_sub_scaled:
  assumes A: "is_mat k c a" and s: "length s = c" and v: "length v = c"
  shows "mat_vec a (map2 (\<lambda>x y. x - l * y) s v) = map2 (\<lambda>x y. x - l * y) (mat_vec a s) (mat_vec a v)"
proof (rule nth_equalityI)
  show "length (mat_vec a (map2 (\<lambda>x y. x - l * y) s v)) =
        length (map2 (\<lambda>x y. x - l * y) (mat_vec a s) (mat_vec a v))" by simp
  fix i assume "i < length (mat_vec a (map2 (\<lambda>x y. x - l * y) s v))"
  then have i: "i < length a" by simp
  have "dot (a ! i) (map2 (\<lambda>x y. x - l * y) s v) = dot (map2 (\<lambda>x y. x - l * y) s v) (a ! i)"
    by (rule dot_commute)
  also have "\<dots> = dot s (a ! i) - l * dot v (a ! i)"
    using A i s v by (intro dot_sub_scaled) (simp_all add: is_mat_row is_mat_length)
  also have "\<dots> = dot (a ! i) s - l * dot (a ! i) v"
    by (simp only: dot_commute)
  finally show "mat_vec a (map2 (\<lambda>x y. x - l * y) s v) ! i =
                map2 (\<lambda>x y. x - l * y) (mat_vec a s) (mat_vec a v) ! i"
    using i by (simp add: mat_vec_nth)
qed

lemma mat_T_symmetric:
  assumes A: "is_mat k k a" and k: "0 < k" and sym: "\<forall>i<k. \<forall>j<k. a ! i ! j = a ! j ! i"
  shows "mat_T a = a"
proof (rule mat_eqI[OF mat_T_is_mat[OF A k] A])
  fix i j assume "i < k" "j < k"
  then show "mat_T a ! i ! j = a ! i ! j" using A sym by (simp add: mat_T_entry)
qed

lemma dot_mat_vec_symmetric:
  assumes A: "is_mat k k a" and k: "0 < k" and sym: "\<forall>i<k. \<forall>j<k. a ! i ! j = a ! j ! i"
    and x: "length x = k" and y: "length y = k"
  shows "dot (mat_vec a x) y = dot x (mat_vec a y)"
  using dot_mat_vec_T[OF A k x y] by (simp add: mat_T_symmetric[OF A k sym])

text \<open>
  For a symmetric array \<open>a\<close> with an eigenvector \<open>v\<close>: reflecting \<open>zl = a s\<close> along \<open>v\<close>
  keeps the quadratic form.
\<close>

lemma reflected_quadratic_form:
  fixes \<alpha> lam :: real
  assumes A: "is_mat k k a" and k: "0 < k" and sym: "\<forall>i<k. \<forall>j<k. a ! i ! j = a ! j ! i"
    and s: "length s = k" and v: "length v = k"
    and zl: "mat_vec a s = zl" and ev: "mat_vec a v = map (\<lambda>x. lam * x) v" and lam: "lam \<noteq> 0"
    and zv: "dot zl v = \<alpha> * dot v v"
  defines "s' \<equiv> map2 (\<lambda>x y. x - 2 * \<alpha> / lam * y) s v"
  defines "zp \<equiv> map2 (\<lambda>x y. x - 2 * \<alpha> * y) zl v"
  shows "mat_vec a s' = zp" and "dot zp s' = dot zl s" and "length s' = k"
proof -
  have lzl: "length zl = k" using zl A by (auto simp: is_mat_length)
  have "mat_vec a s' = map2 (\<lambda>x y. x - 2 * \<alpha> / lam * y) zl (map (\<lambda>x. lam * x) v)"
    unfolding s'_def mat_vec_sub_scaled[OF A s v] zl ev ..
  also have "\<dots> = zp"
    unfolding zp_def by (rule nth_equalityI) (use lam in \<open>simp_all add: lzl v\<close>)
  finally show "mat_vec a s' = zp" .
  show ls': "length s' = k" by (simp add: s'_def s v)
  have "dot (mat_vec a v) s = dot v (mat_vec a s)"
    using A k sym v s by (rule dot_mat_vec_symmetric)
  then have "lam * dot v s = dot v zl" by (simp add: ev zl dot_scale_left)
  then have vs: "dot v s = \<alpha> * dot v v / lam"
    using lam zv by (simp add: dot_commute[of v zl] field_simps)
  have r: "dot x s' = dot x s - 2 * \<alpha> / lam * dot x v" if "length x = k" for x
  proof -
    have "dot x s' = dot s' x" by (rule dot_commute)
    also have "\<dots> = dot s x - 2 * \<alpha> / lam * dot v x"
      unfolding s'_def by (rule dot_sub_scaled) (simp_all add: s v that)
    finally show ?thesis by (simp only: dot_commute[of x])
  qed
  note 1 = r[OF lzl] and 2 = r[OF v]
  have "dot zp s' = dot zl s' - 2 * \<alpha> * dot v s'"
    unfolding zp_def by (rule dot_sub_scaled) (simp_all add: lzl v ls')
  also have "\<dots> = dot zl s"
    unfolding 1 2 vs zv using lam by (simp add: field_simps)
  finally show "dot zp s' = dot zl s" .
qed

lemma dyh_of_entry:
  assumes dy: "is_mat n n dy" and n: "0 < n" and ij: "i < n - 1" "j < n - 1"
  shows "dyh_of dy ! i ! j = dy ! Suc i ! Suc j - dy ! Suc i ! 0 * dy ! Suc j ! 0 / (dy ! 0 ! 0)"
    and "length (dyh_of dy ! i) = n - 1"
proof -
  have l: "length dy = n" using dy by (rule is_mat_length)
  have r: "length (dy ! Suc i) = n" using dy ij by (simp add: is_mat_row)
  show "length (dyh_of dy ! i) = n - 1"
    using ij by (simp add: dyh_of_def Let_def l r nth_tl)
  show "dyh_of dy ! i ! j = dy ! Suc i ! Suc j - dy ! Suc i ! 0 * dy ! Suc j ! 0 / (dy ! 0 ! 0)"
    using ij by (simp add: dyh_of_def Let_def l r nth_tl)
qed

lemma dyh_of_symmetric:
  assumes dy: "is_mat n n dy" and n: "0 < n" and sym: "\<forall>i<n. \<forall>j<n. dy ! i ! j = dy ! j ! i"
  shows "is_mat (n - 1) (n - 1) (dyh_of dy)"
    and "\<forall>i<n - 1. \<forall>j<n - 1. dyh_of dy ! i ! j = dyh_of dy ! j ! i"
proof -
  show "is_mat (n - 1) (n - 1) (dyh_of dy)"
  proof (rule is_matI)
    show "length (dyh_of dy) = n - 1" using dy by (simp add: dyh_of_def Let_def is_mat_length)
    fix i assume "i < n - 1"
    then show "length (dyh_of dy ! i) = n - 1" using dyh_of_entry(2)[OF dy n, of i i] by simp
  qed
  show "\<forall>i<n - 1. \<forall>j<n - 1. dyh_of dy ! i ! j = dyh_of dy ! j ! i"
  proof (intro allI impI)
    fix i j assume ij: "i < n - 1" "j < n - 1"
    have "dy ! Suc i ! Suc j = dy ! Suc j ! Suc i" using sym ij by simp
    then show "dyh_of dy ! i ! j = dyh_of dy ! j ! i"
      unfolding dyh_of_entry(1)[OF dy n ij] dyh_of_entry(1)[OF dy n ij(2,1)] by simp
  qed
qed

text \<open>
  The columns of \<open>z = V t\<close> that belong to the last two vertices: they differ by a
  multiple of the last eigenvector used.
\<close>

lemma z_last_two:
  fixes Vm t :: mat
  assumes Vm: "is_mat k (m - 1) Vm" and t: "is_mat (m - 1) m t" and m: "2 \<le> m"
    and eq: "\<And>i. i < m - 2 \<Longrightarrow> t ! i ! (m - 1) = t ! i ! (m - 2)"
    and neg: "t ! (m - 2) ! (m - 1) = - t ! (m - 2) ! (m - 2)"
  defines "z \<equiv> mat_mul Vm t"
  defines "\<alpha> \<equiv> t ! (m - 2) ! (m - 1)"
  defines "v \<equiv> col Vm (m - 2)"
  shows "is_mat k m z"
    and "map last z = col z (m - 1)"
    and "col z (m - 2) = map2 (\<lambda>x y. x - 2 * \<alpha> * y) (col z (m - 1)) v"
    and "(\<forall>l<m - 2. dot (col Vm l) v = 0) \<Longrightarrow> dot (col z (m - 1)) v = \<alpha> * dot v v"
proof -
  obtain n' where n': "m = Suc (Suc n')" using m by (metis Suc_leD add_2_eq_Suc le_Suc_ex)
  have m1: "0 < m - 1" "m - 1 = Suc n'" "m - 2 = n'" using n' by simp_all
  have mm: "m - 1 < m" using n' by simp
  show zm: "is_mat k m z" unfolding z_def using Vm t m1(1) by (rule mat_mul_is_mat)
  have lz: "length z = k" using zm by (rule is_mat_length)
  have lV: "length Vm = k" using Vm by (rule is_mat_length)
  have lt: "length t = m - 1" using t by (rule is_mat_length)
  have nct: "ncols t = m" using t m1(1) by (rule is_mat_ncols)
  have lVi: "length (Vm ! i) = m - 1" if "i < k" for i using Vm that by (simp add: is_mat_row)
  have entry: "z ! i ! j = (\<Sum>l<m - 1. Vm ! i ! l * t ! l ! j)" if "i < k" "j < m" for i j
  proof -
    have "z ! i ! j = dot (Vm ! i) (col t j)"
      unfolding z_def using that by (simp add: mat_mul_nth lV nct)
    also have "\<dots> = (\<Sum>l<m - 1. Vm ! i ! l * col t j ! l)"
      using lVi[OF that(1)] by (simp add: dot_nth lt)
    also have "\<dots> = (\<Sum>l<m - 1. Vm ! i ! l * t ! l ! j)"
      by (rule sum.cong) (simp_all add: col_nth lt)
    finally show ?thesis .
  qed
  show "map last z = col z (m - 1)"
  proof (rule nth_equalityI)
    show "length (map last z) = length (col z (m - 1))" by simp
    fix i assume "i < length (map last z)"
    then have i: "i < k" by (simp add: lz)
    have l: "length (z ! i) = m" using zm i by (simp add: is_mat_row)
    then have "z ! i \<noteq> []" using n' by auto
    then have "last (z ! i) = z ! i ! (m - 1)" by (simp add: last_conv_nth l)
    then show "map last z ! i = col z (m - 1) ! i" using i by (simp add: lz col_nth)
  qed
  have diff: "z ! i ! (m - 2) = z ! i ! (m - 1) - 2 * \<alpha> * Vm ! i ! (m - 2)" if i: "i < k" for i
  proof -
    have "z ! i ! (m - 1) - z ! i ! (m - 2)
        = (\<Sum>l<Suc n'. Vm ! i ! l * (t ! l ! (m - 1) - t ! l ! (m - 2)))"
      using entry[OF i, of "m - 1"] entry[OF i, of "m - 2"] n'
      by (simp add: algebra_simps sum_subtractf m1 del: sum.lessThan_Suc)
    also have "\<dots> = (\<Sum>l<n'. Vm ! i ! l * (t ! l ! (m - 1) - t ! l ! (m - 2)))
        + Vm ! i ! n' * (t ! n' ! (m - 1) - t ! n' ! (m - 2))"
      by (rule sum.lessThan_Suc)
    also have "(\<Sum>l<n'. Vm ! i ! l * (t ! l ! (m - 1) - t ! l ! (m - 2))) = 0"
      by (rule sum.neutral) (use eq m1 in simp)
    also have "t ! n' ! (m - 1) - t ! n' ! (m - 2) = 2 * \<alpha>"
      using neg by (simp add: \<alpha>_def m1)
    finally show ?thesis by (simp add: m1 algebra_simps)
  qed
  show "col z (m - 2) = map2 (\<lambda>x y. x - 2 * \<alpha> * y) (col z (m - 1)) v"
    by (rule nth_equalityI) (use diff in \<open>simp_all add: v_def lz lV col_nth\<close>)
  show "dot (col z (m - 1)) v = \<alpha> * dot v v" if orth: "\<forall>l<m - 2. dot (col Vm l) v = 0"
  proof -
    have cv: "dot (col Vm l) v = (\<Sum>i<k. Vm ! i ! l * Vm ! i ! (m - 2))" for l
      unfolding v_def by (simp add: dot_nth lV) (rule sum.cong, simp_all add: col_nth lV)
    have "dot (col z (m - 1)) v = (\<Sum>i<k. z ! i ! (m - 1) * Vm ! i ! (m - 2))"
      unfolding v_def by (simp add: dot_nth lV lz) (rule sum.cong, simp_all add: col_nth lV lz)
    also have "\<dots> = (\<Sum>i<k. \<Sum>l<m - 1. t ! l ! (m - 1) * (Vm ! i ! l * Vm ! i ! (m - 2)))"
    proof (rule sum.cong)
      fix i assume "i \<in> {..<k}"
      then have i: "i < k" by simp
      have "z ! i ! (m - 1) * Vm ! i ! (m - 2) = (\<Sum>l<m - 1. Vm ! i ! l * t ! l ! (m - 1) * Vm ! i ! (m - 2))"
        unfolding entry[OF i, of "m - 1", OF mm] sum_distrib_right ..
      also have "\<dots> = (\<Sum>l<m - 1. t ! l ! (m - 1) * (Vm ! i ! l * Vm ! i ! (m - 2)))"
        by (rule sum.cong) simp_all
      finally show "z ! i ! (m - 1) * Vm ! i ! (m - 2) =
          (\<Sum>l<m - 1. t ! l ! (m - 1) * (Vm ! i ! l * Vm ! i ! (m - 2)))" .
    qed simp
    also have "\<dots> = (\<Sum>l<m - 1. \<Sum>i<k. t ! l ! (m - 1) * (Vm ! i ! l * Vm ! i ! (m - 2)))"
      by (rule sum.swap)
    also have "\<dots> = (\<Sum>l<Suc n'. t ! l ! (m - 1) * dot (col Vm l) v)"
      unfolding cv m1 by (simp add: sum_distrib_left del: sum.lessThan_Suc)
    also have "\<dots> = (\<Sum>l<n'. t ! l ! (m - 1) * dot (col Vm l) v) + t ! n' ! (m - 1) * dot (col Vm n') v"
      by (rule sum.lessThan_Suc)
    also have "(\<Sum>l<n'. t ! l ! (m - 1) * dot (col Vm l) v) = 0"
      by (rule sum.neutral) (use orth m1 in simp)
    finally show ?thesis by (simp add: \<alpha>_def v_def m1)
  qed
qed

text \<open>The column \<^verbatim>\<open>Scenario_(j+1)\<close> before the rotation back.\<close>

lemma df_column:
  fixes f r :: real
  assumes z: "is_mat k m z" and a: "length ahy = k" and j: "j < m"
  defines "df \<equiv> replicate (Suc m) f # map2 (#) ahy (map2 (\<lambda>a. map (\<lambda>x. r * x + a)) ahy z)"
  shows "col df (Suc j) = f # map2 (\<lambda>a zl. r * zl + a) ahy (col z j)"
proof -
  define rz where "rz = map2 (\<lambda>a. map (\<lambda>x. r * x + a)) ahy z"
  have lz: "length z = k" using z by (rule is_mat_length)
  have lrz: "length rz = k" by (simp add: rz_def a lz)
  have rzi: "rz ! i = map (\<lambda>x. r * x + ahy ! i) (z ! i)" if "i < k" for i
    using that by (simp add: rz_def a lz)
  have lzi: "length (z ! i) = m" if "i < k" for i using z that by (simp add: is_mat_row)
  have df: "df = replicate (Suc m) f # map2 (#) ahy rz" by (simp add: df_def rz_def)
  have "map (\<lambda>row. row ! Suc j) (map2 (#) ahy rz) = map2 (\<lambda>a zl. r * zl + a) ahy (col z j)"
    by (rule nth_equalityI) (use j in \<open>simp_all add: a lrz lz rzi lzi col_nth\<close>)
  then show ?thesis using j by (simp add: col_def df)
qed

lemma mat_vec_entry_sum:
  assumes "is_mat k c a" "length y = c" "i < k"
  shows "mat_vec a y ! i = (\<Sum>l<c. a ! i ! l * y ! l)"
  using assms by (simp add: mat_vec_nth is_mat_length is_mat_row dot_nth)

lemma dot_cols_sum:
  assumes "is_mat k c a"
  shows "dot (col a l) (col a l') = (\<Sum>i<k. a ! i ! l * a ! i ! l')"
proof -
  have lk: "length a = k" using assms by (rule is_mat_length)
  have "dot (col a l) (col a l') = (\<Sum>i<k. col a l ! i * col a l' ! i)"
    by (simp add: dot_nth lk)
  also have "\<dots> = (\<Sum>i<k. a ! i ! l * a ! i ! l')"
    by (rule sum.cong) (simp_all add: col_nth lk)
  finally show ?thesis .
qed

text \<open>Arrays with orthonormal columns keep the inner product.\<close>

lemma dot_orthonormal_cols:
  assumes V: "is_mat k c a" and x: "length x = c" and y: "length y = c"
    and O: "\<forall>l<c. \<forall>l'<c. dot (col a l) (col a l') = (if l = l' then 1 else 0)"
  shows "dot (mat_vec a x) (mat_vec a y) = dot x y"
proof -
  have lk: "length a = k" using V by (rule is_mat_length)
  have "dot (mat_vec a x) (mat_vec a y) = (\<Sum>i<k. mat_vec a x ! i * mat_vec a y ! i)"
    by (simp add: dot_nth lk)
  also have "\<dots> = (\<Sum>i<k. (\<Sum>l<c. a ! i ! l * x ! l) * (\<Sum>l'<c. a ! i ! l' * y ! l'))"
    by (rule sum.cong) (simp_all add: mat_vec_entry_sum[OF V x] mat_vec_entry_sum[OF V y])
  also have "\<dots> = (\<Sum>i<k. \<Sum>l<c. \<Sum>l'<c. x ! l * y ! l' * (a ! i ! l * a ! i ! l'))"
    unfolding sum_product by (intro sum.cong refl) (simp add: algebra_simps)
  also have "\<dots> = (\<Sum>l<c. \<Sum>i<k. \<Sum>l'<c. x ! l * y ! l' * (a ! i ! l * a ! i ! l'))"
    by (rule sum.swap)
  also have "\<dots> = (\<Sum>l<c. \<Sum>l'<c. \<Sum>i<k. x ! l * y ! l' * (a ! i ! l * a ! i ! l'))"
    by (intro sum.cong refl sum.swap)
  also have "\<dots> = (\<Sum>l<c. \<Sum>l'<c. x ! l * y ! l' * dot (col a l) (col a l'))"
    unfolding dot_cols_sum[OF V] sum_distrib_left ..
  also have "\<dots> = (\<Sum>l<c. \<Sum>l'<c. if l = l' then x ! l * y ! l' else 0)"
    by (intro sum.cong refl) (simp add: O)
  also have "\<dots> = (\<Sum>l<c. x ! l * y ! l)"
    by (intro sum.cong refl) (simp add: sum.delta)
  finally show ?thesis by (simp add: dot_nth x y)
qed

text \<open>An array applied to a combination of its eigenvectors.\<close>

lemma mat_vec_eigen:
  assumes A: "is_mat k k d" and V: "is_mat k c a" and y: "length y = c" and lams: "length lams = c"
    and E: "\<forall>l<c. mat_vec d (col a l) = map (\<lambda>x. lams ! l * x) (col a l)"
  shows "mat_vec d (mat_vec a y) = mat_vec a (map2 (*) lams y)"
proof (rule nth_equalityI)
  have lk: "length a = k" using V by (rule is_mat_length)
  have ld: "length d = k" using A by (rule is_mat_length)
  show "length (mat_vec d (mat_vec a y)) = length (mat_vec a (map2 (*) lams y))"
    by (simp add: lk ld)
  fix i assume "i < length (mat_vec d (mat_vec a y))"
  then have i: "i < k" by (simp add: ld)
  have Ei: "(\<Sum>b<k. d ! i ! b * a ! b ! l) = lams ! l * a ! i ! l" if "l < c" for l
  proof -
    have "mat_vec d (col a l) ! i = (\<Sum>b<k. d ! i ! b * col a l ! b)"
      using A i by (intro mat_vec_entry_sum) (simp_all add: lk)
    also have "\<dots> = (\<Sum>b<k. d ! i ! b * a ! b ! l)"
      by (rule sum.cong) (simp_all add: col_nth lk)
    finally show ?thesis using E that i by (simp add: col_nth lk)
  qed
  have "mat_vec d (mat_vec a y) ! i = (\<Sum>b<k. d ! i ! b * mat_vec a y ! b)"
    using A i by (intro mat_vec_entry_sum) (simp_all add: lk)
  also have "\<dots> = (\<Sum>b<k. \<Sum>l<c. y ! l * (d ! i ! b * a ! b ! l))"
    by (rule sum.cong) (simp_all add: mat_vec_entry_sum[OF V y] sum_distrib_left algebra_simps)
  also have "\<dots> = (\<Sum>l<c. \<Sum>b<k. y ! l * (d ! i ! b * a ! b ! l))"
    by (rule sum.swap)
  also have "\<dots> = (\<Sum>l<c. y ! l * (\<Sum>b<k. d ! i ! b * a ! b ! l))"
    by (simp only: sum_distrib_left)
  also have "\<dots> = (\<Sum>l<c. a ! i ! l * map2 (*) lams y ! l)"
  proof (rule sum.cong)
    fix l assume "l \<in> {..<c}"
    then have l: "l < c" by simp
    show "y ! l * (\<Sum>b<k. d ! i ! b * a ! b ! l) = a ! i ! l * map2 (*) lams y ! l"
      unfolding Ei[OF l] using l by (simp add: lams y)
  qed simp
  also have "\<dots> = mat_vec a (map2 (*) lams y) ! i"
    using V i by (intro mat_vec_entry_sum[symmetric]) (simp_all add: lams y)
  finally show "mat_vec d (mat_vec a y) ! i = mat_vec a (map2 (*) lams y) ! i" .
qed

text \<open>
  The quadratic form of \<open>z = V x\<close> under the inverse of an array with the orthonormal
  eigenvectors \<open>V\<close>: a solution of \<open>d s = z\<close> and the value \<open>z \<cdot> s\<close>.
\<close>

lemma eigen_quadratic_form:
  assumes A: "is_mat k k d" and V: "is_mat k c a" and x: "length x = c" and lams: "length lams = c"
    and E: "\<forall>l<c. mat_vec d (col a l) = map (\<lambda>x. lams ! l * x) (col a l)"
    and O: "\<forall>l<c. \<forall>l'<c. dot (col a l) (col a l') = (if l = l' then 1 else 0)"
    and ne: "\<forall>l<c. lams ! l \<noteq> 0"
  defines "s \<equiv> mat_vec a (map2 (\<lambda>u l. u / l) x lams)"
  shows "mat_vec d s = mat_vec a x" and "dot (mat_vec a x) s = (\<Sum>l<c. x ! l * x ! l / lams ! l)"
    and "length s = k"
proof -
  define y where "y = map2 (\<lambda>u l. u / l) x lams"
  have ly: "length y = c" by (simp add: y_def x lams)
  have "map2 (*) lams y = x"
    by (rule nth_equalityI) (use ne in \<open>simp_all add: y_def x lams\<close>)
  then show "mat_vec d s = mat_vec a x"
    unfolding s_def y_def[symmetric] using mat_vec_eigen[OF A V ly lams E] by simp
  have "dot (mat_vec a x) s = dot x y"
    unfolding s_def y_def[symmetric] using V x ly O by (rule dot_orthonormal_cols)
  also have "\<dots> = (\<Sum>l<c. x ! l * y ! l)" by (simp add: dot_nth x ly)
  also have "\<dots> = (\<Sum>l<c. x ! l * x ! l / lams ! l)"
    by (rule sum.cong) (simp_all add: y_def x lams)
  finally show "dot (mat_vec a x) s = (\<Sum>l<c. x ! l * x ! l / lams ! l)" .
  show "length s = k" using V by (simp add: s_def is_mat_length)
qed

lemma weighted_sum_le:
  fixes x y w :: "nat \<Rightarrow> real"
  assumes j: "j < c" and eq: "\<And>l. l < j \<Longrightarrow> x l = y l" and z: "\<And>l. j < l \<Longrightarrow> l < c \<Longrightarrow> x l = 0"
    and n: "(\<Sum>l<c. x l * x l) = (\<Sum>l<c. y l * y l)"
    and mono: "\<And>l. j \<le> l \<Longrightarrow> l < c \<Longrightarrow> w j \<le> w l"
  shows "(\<Sum>l<c. x l * x l * w l) \<le> (\<Sum>l<c. y l * y l * w l)"
proof -
  have "(\<Sum>l<c. (y l * y l - x l * x l) * w j) \<le> (\<Sum>l<c. (y l * y l - x l * x l) * w l)"
  proof (rule sum_mono)
    fix l assume "l \<in> {..<c}"
    then have l: "l < c" by simp
    consider "l < j" | "l = j" | "j < l" by linarith
    then show "(y l * y l - x l * x l) * w j \<le> (y l * y l - x l * x l) * w l"
    proof cases
      case 1 then show ?thesis by (simp add: eq)
    next
      case 2 then show ?thesis by simp
    next
      case 3
      then have "w j \<le> w l" using mono l by simp
      then show ?thesis using z[OF 3 l] by (simp add: mult_left_mono)
    qed
  qed
  moreover have "(\<Sum>l<c. (y l * y l - x l * x l) * w j) = 0"
    using n by (simp add: sum_distrib_right[symmetric] sum_subtractf)
  moreover have "(\<Sum>l<c. (y l * y l - x l * x l) * w l)
      = (\<Sum>l<c. y l * y l * w l) - (\<Sum>l<c. x l * x l * w l)"
    by (simp add: sum_subtractf left_diff_distrib)
  ultimately show ?thesis by simp
qed

text \<open>
  Claim C3, as amended. Let \<open>C\<close> be a symmetric \<open>n \<times> n\<close> array with \<open>w' C w \<noteq> 0\<close>, let
  \<^verbatim>\<open>p_from_w\<close> accept \<open>w\<close>, let no component of \<open>w\<close> be negative, \<open>0 < q \<le> 1\<close> and
  \<open>2 \<le> M \<le> n\<close>. Let the library routines meet their contracts on the arrays they are
  called with:
  \<^item> both factorisations are QR factorisations;
  \<^item> \<^verbatim>\<open>eig\<close> returns \<open>n - 1\<close> values and an \<open>(n - 1) \<times> (n - 1)\<close> array, and the last
    column \<open>v\<close> of \<^verbatim>\<open>V[:, :(M - 1)]\<close> is an eigenvector of \<open>dyh\<close>, \<open>dyh v = lam v\<close> with
    \<open>lam \<noteq> 0\<close>, orthogonal to the columns before it;
  \<^item> \<^verbatim>\<open>solve\<close> returns a solution \<open>s\<close> of \<open>dyh s = z_last\<close>, of length \<open>n - 1\<close>, and the
    quadratic form \<open>z_last \<cdot> s\<close> is positive;
  \<^item> the density is defined at every point of length \<open>n\<close>, and at \<open>C u\<close> it is
    \<open>K exp (- (C u) \<cdot> u / 2)\<close> for a constant \<open>K > 0\<close>.

  Then \<^verbatim>\<open>comp_scenarios\<close> returns a likelihood vector of length \<open>M + 1\<close> whose entry 0
  is 1 and whose last two entries, those of \<^verbatim>\<open>Scenario_(M-1)\<close> and \<^verbatim>\<open>Scenario_M\<close>, are
  \<open>q\<close>. For \<open>M = 2\<close> these are the entries of all the alternatives.

  If moreover every column \<open>l\<close> of \<^verbatim>\<open>V[:, :(M - 1)]\<close> is an eigenvector of \<open>dyh\<close> for the
  eigenvalue \<^verbatim>\<open>vals[ind[l]]\<close>, these eigenvalues are positive and the columns are
  orthonormal, then every entry of the likelihood vector lies between \<open>q\<close> and 1.

  (\<open>p\<close>, \<open>t\<close>, \<open>zl\<close> and \<open>v\<close> name the values that the procedure computes.)
\<close>

theorem likelihood_calibrated:
  assumes c: "is_mat (length w) (length w) c"
    and sym: "\<forall>i<length w. \<forall>j<length w. c ! i ! j = c ! j ! i"
    and j0: "j0_of w = Inr j0" and nn: "\<forall>x\<in>set w. 0 \<le> x"
    and wcw: "dot w (mat_vec c w) \<noteq> 0"
    and q: "0 < q" "q \<le> 1" and M: "2 \<le> M" "nat M \<le> length w"
    and qr: "qr_factor (mat_T (p_start w j0)) (linalg_qr np (mat_T (p_start w j0)))"
    and qrs: "qr_factor (mat_T (simplex_start (nat M))) (linalg_qr np (mat_T (simplex_start (nat M))))"
    and p: "p_from_w (linalg_qr np) w = Inr p"
    and eig: "linalg_eig np (dyh_of (dy_of p c)) = Inr (vals, vect)"
             "length vals = length w - 1" "is_mat (length w - 1) (length w - 1) vect"
    and t: "standard_simplex_vertices (linalg_qr np) M = Inr t"
    and zl: "zl = map last (mat_mul (v_of vals vect M) t)"
    and s: "linalg_solve np (dyh_of (dy_of p c)) zl = Inr s" "length s = length w - 1"
           "mat_vec (dyh_of (dy_of p c)) s = zl" "0 < dot zl s"
    and v: "v = col (v_of vals vect M) (nat M - 2)"
    and ev: "mat_vec (dyh_of (dy_of p c)) v = map (\<lambda>x. lam * x) v" "lam \<noteq> 0"
    and orth: "\<forall>l<nat M - 2. dot (col (v_of vals vect M) l) v = 0"
    and pdf: "0 < K" "\<forall>x. length x = length w \<longrightarrow> (\<exists>v. mvn_pdf np x c = Inr v)"
             "\<forall>u. length u = length w \<longrightarrow>
                 mvn_pdf np (mat_vec c u) c = Inr (K * exp (- dot (mat_vec c u) u / 2))"
  shows "\<exists>S lik. comp_scenarios np c w L q M = Inr (S, lik) \<and> length lik = nat M + 1 \<and>
                 lik ! 0 = 1 \<and> lik ! (nat M - 1) = q \<and> lik ! nat M = q \<and>
                 ((\<forall>l<nat M - 1.
                      mat_vec (dyh_of (dy_of p c)) (col (v_of vals vect M) l) =
                        map (\<lambda>x. vals ! (rev (argsort vals) ! l) * x) (col (v_of vals vect M) l) \<and>
                      0 < vals ! (rev (argsort vals) ! l)) \<and>
                  (\<forall>l<nat M - 1. \<forall>l'<nat M - 1.
                      dot (col (v_of vals vect M) l) (col (v_of vals vect M) l') =
                        (if l = l' then 1 else 0)) \<longrightarrow>
                  (\<forall>j<nat M + 1. q \<le> lik ! j \<and> lik ! j \<le> 1))"
proof -
  define n where "n = length w"
  have "2 \<le> length w" using M by linarith
  then have n: "0 < n" "2 \<le> n" "0 < n - 1" unfolding n_def by linarith+
  have m: "0 < nat M" "0 < nat M - 1" "nat (M - 1) = nat M - 1" "nat (M + 1) = Suc (nat M)"
    "nat M - 1 \<le> n - 1"
    using M unfolding n_def by linarith+
  note c' = c[folded n_def] and sym' = sym[folded n_def]
  obtain P where "p_from_w (linalg_qr np) w = Inr P" and Pm: "is_mat n n P"
    and P0: "P ! 0 = map (\<lambda>x. x / norm_v w) w"
    and rows: "\<forall>i<n. \<forall>k<n. dot (P ! i) (P ! k) = (if i = k then 1 else 0)"
    and cols: "\<forall>j<n. \<forall>k<n. (\<Sum>i<n. P ! i ! j * P ! i ! k) = (if j = k then 1 else 0)"
    using p_from_w_nonneg[of w j0 "linalg_qr np", OF j0 nn qr] unfolding n_def by blast
  then have Pp: "P = p" using p by simp
  note Pm = Pm[unfolded Pp] and P0 = P0[unfolded Pp] and rows = rows[unfolded Pp]
    and cols = cols[unfolded Pp]
  have pne: "p \<noteq> []" using Pm n by (auto simp: is_mat_def)
  have wn: "0 < norm_v w" using j0 by (rule norm_v_pos)
  define f where "f = L / norm_v w"
  have fc: "mat_vec p (map (\<lambda>x. L * x / dot w (mat_vec c w)) (mat_vec c w)) ! 0 = f"
    unfolding f_def using P0 pne wcw by (rule first_comp_value)
  define dy where "dy = dy_of p c"
  have dym: "is_mat n n dy" unfolding dy_def using Pm n(1) c' by (rule dy_of_is_mat)
  have dysym: "\<forall>i<n. \<forall>j<n. dy ! i ! j = dy ! j ! i"
    unfolding dy_def using dy_of_symmetric[OF Pm n(1) c' sym'] by blast
  have d11: "dy ! 0 ! 0 \<noteq> 0"
    unfolding dy_def d11_value[OF Pm n(1) c' P0] using wcw wn by simp
  define dI1 where "dI1 = map (\<lambda>r. r ! 0) (tl dy)"
  define ahy where "ahy = map (\<lambda>x. L * x / (dy ! 0 ! 0) / norm_v w) dI1"
  have ahy': "ahy = map (\<lambda>x. f * x / (dy ! 0 ! 0)) dI1" by (simp add: ahy_def f_def)
  have lahy: "length ahy = n - 1" using dym by (simp add: ahy_def dI1_def is_mat_length)
  define dyh where "dyh = dyh_of dy"
  define Vm where "Vm = v_of vals vect M"
  have Vmm: "is_mat (n - 1) (nat M - 1) Vm"
    unfolding Vm_def using v_of_is_mat[of "n - 1" vect vals M] eig(2,3) m by (simp add: n_def)
  have tm: "is_mat (nat M - 1) (nat M) t" using M(1) qrs t by (rule simplex_shape)
  have ncV: "ncols Vm = length t"
    using is_mat_ncols[OF Vmm n(3)] tm by (simp add: is_mat_length)
  define z where "z = mat_mul Vm t"
  have zm: "is_mat (n - 1) (nat M) z" unfolding z_def using Vmm tm m(2) by (rule mat_mul_is_mat)
  have zl': "zl = map last z" by (simp add: zl z_def Vm_def)
  note l2 = simplex_last_two[OF M(1) qrs t]
  define \<alpha> where "\<alpha> = t ! (nat M - 2) ! (nat M - 1)"
  have m2: "2 \<le> nat M" "Suc (nat M - 2) = nat M - 1" "nat M - 2 < nat M" "nat M - 1 < Suc (nat M)"
    using M by linarith+
  have v': "v = col Vm (nat M - 2)" by (simp only: v Vm_def)
  note zc = z_last_two[OF Vmm tm m2(1) l2, folded z_def \<alpha>_def, folded v']
  have zlc: "zl = col z (nat M - 1)" using zc(2) by (simp add: zl')
  define zp where "zp = map2 (\<lambda>x y. x - 2 * \<alpha> * y) zl v"
  have zpc: "col z (nat M - 2) = zp" using zc(3) by (simp add: zp_def zlc)
  have zv: "dot zl v = \<alpha> * dot v v" using zc(4) orth by (simp add: zlc Vm_def)
  have lv: "length v = n - 1" using Vmm by (simp add: v' is_mat_length)
  define denom where "denom = dot zl s"
  have denom: "0 < denom" using s(4) by (simp add: denom_def)
  have qfi: "quadratic_form_inv (linalg_solve np) dyh (map last z) = Inr denom"
    using s(1) by (simp add: quadratic_form_inv_def dyh_def dy_def zl'[symmetric] denom_def)
  define r where "r = sqrt (- 2 * ln q / denom)"
  have "ln q \<le> 0" using q by (simp add: ln_le_zero_iff)
  then have "0 \<le> - 2 * ln q / denom" using denom by (simp add: divide_nonpos_pos)
  then have r2: "r * r = - 2 * ln q / denom"
    unfolding r_def by (metis abs_of_nonneg real_sqrt_mult_self)
  define df where "df = replicate (Suc (nat M)) f # map2 (#) ahy (map2 (\<lambda>a. map (\<lambda>x. r * x + a)) ahy z)"
  note dfc = df_columns[OF zm m(1) lahy, of f r, folded df_def]
  define ar where "ar = mat_mul (mat_T p) df"
  have ncdf: "ncols df = Suc (nat M)" using dfc(1) by (rule is_mat_ncols) simp
  have colar: "col ar j = mat_vec (mat_T p) (col df j)" if "j < Suc (nat M)" for j
    unfolding ar_def using that by (simp add: col_mat_mul ncdf)
  have lcol: "length (col ar j) = length w" for j
    using mat_T_is_mat[OF Pm n(1)] by (simp add: ar_def is_mat_length n_def)
  obtain lik where lik: "collect (map (\<lambda>j. mvn_pdf np (col ar j) c) [0..<nat (M + 1)]) = Inr lik"
    and llik: "length lik = Suc (nat M)"
    and likj: "\<forall>j<Suc (nat M). mvn_pdf np (col ar j) c = Inr (lik ! j)"
    using collect_map[of "[0..<nat (M + 1)]" "\<lambda>j. mvn_pdf np (col ar j) c"] pdf(2) lcol
    by (auto simp: m(4) simp del: upt_Suc)
  define a0 where "a0 = (f / (dy ! 0 ! 0)) # replicate (n - 1) 0"
  note cp = central_preimage[OF dym n(1) dysym d11, of f, folded a0_def dI1_def ahy']
  define u0 where "u0 = mat_vec (mat_T p) a0"
  have lu0: "length u0 = length w"
    unfolding u0_def using mat_vec_T_length[OF Pm n(1)] by (simp add: n_def)
  note tq0 = transformed_quadratic_form[OF Pm n(1) c' cp(3) rows cols, folded dy_def u0_def]
  have x0: "mat_vec c u0 = col ar 0" using tq0(1) cp(1) colar[of 0] dfc(2) by (simp add: ahy')
  have Q0: "dot (mat_vec c u0) u0 = f * f / (dy ! 0 ! 0)"
    using tq0(1,2) cp(1,2) by simp
  have lik0: "lik ! 0 = K * exp (- (f * f / (dy ! 0 ! 0)) / 2)"
    using pdf(3) lu0 likj x0 Q0 by (metis Inr_inject zero_less_Suc)
  define aM where "aM = (f / (dy ! 0 ! 0) - r * dot dI1 s / (dy ! 0 ! 0)) # map (\<lambda>x. r * x) s"
  note lp = last_preimage[OF dym n(1) dysym d11 s(2)[folded n_def] s(3)[folded dy_def], of f r,
      folded dI1_def, folded aM_def ahy']
  define uM where "uM = mat_vec (mat_T p) aM"
  have luM: "length uM = length w"
    unfolding uM_def using mat_vec_T_length[OF Pm n(1)] by (simp add: n_def)
  note tqM = transformed_quadratic_form[OF Pm n(1) c' lp(3) rows cols, folded dy_def uM_def]
  have xM: "mat_vec c uM = col ar (nat M)"
    using tqM(1) lp(1) colar[of "nat M"] dfc(3) by (simp add: zl' ahy')
  have QM: "dot (mat_vec c uM) uM = f * f / (dy ! 0 ! 0) + r * r * denom"
    using tqM(1,2) lp(1,2) by (simp add: denom_def)
  have likM: "lik ! nat M = K * exp (- (f * f / (dy ! 0 ! 0) + r * r * denom) / 2)"
    using pdf(3) luM likj xM QM by (metis Inr_inject lessI)
  have res: "comp_scenarios np c w L q M = Inr (ar, map (\<lambda>l. l / lik ! 0) lik)"
  proof (rule comp_scenarios_eval[where p = p and first_comp = f and dy = dy and ahy = ahy
        and dyh = dyh and vals = vals and vect = vect and t = t and z = z and denom = denom
        and V = "map (\<lambda>r. map (\<lambda>j. r ! j) (rev (argsort vals))) vect"])
    show "is_mat (length w) (length w) c" by (rule c)
    show "p_from_w (linalg_qr np) w = Inr p" by (rule p)
    show "mat_vec p (map (\<lambda>x. L * x / dot w (mat_vec c w)) (mat_vec c w)) ! 0 = f" by (rule fc)
    show "mat_mul p (mat_mul c (mat_T p)) = dy" by (simp add: dy_def dy_of_def)
    show "map (\<lambda>x. L * x / (dy ! 0 ! 0) / norm_v w) (map (\<lambda>r. r ! 0) (tl dy)) = ahy"
      by (simp only: ahy_def dI1_def)
    show "map2 (map2 (\<lambda>x y. x - y / (dy ! 0 ! 0))) (map tl (tl dy))
           (map (\<lambda>a. map (\<lambda>b. a * b) (map (\<lambda>r. r ! 0) (tl dy))) (map (\<lambda>r. r ! 0) (tl dy))) = dyh"
      by (simp only: dyh_def dyh_of_def Let_def)
    show "linalg_eig np dyh = Inr (vals, vect)" using eig(1) by (simp only: dyh_def dy_def)
    show "map (\<lambda>r. map (\<lambda>j. r ! j) (rev (argsort vals))) vect =
          map (\<lambda>r. map (\<lambda>j. r ! j) (rev (argsort vals))) vect" ..
    show "standard_simplex_vertices (linalg_qr np) M = Inr t" by (rule t)
    show "ncols (map (take (nat (M - 1))) (map (\<lambda>r. map (\<lambda>j. r ! j) (rev (argsort vals))) vect)) = length t"
      using ncV by (simp only: Vm_def v_of_def Let_def)
    show "mat_mul (map (take (nat (M - 1))) (map (\<lambda>r. map (\<lambda>j. r ! j) (rev (argsort vals))) vect)) t = z"
      by (simp only: z_def Vm_def v_of_def Let_def)
    show "quadratic_form_inv (linalg_solve np) dyh (map last z) = Inr denom" by (rule qfi)
    show "mat_mul (mat_T p) (replicate (nat (M + 1)) f #
           map2 (#) ahy (map2 (\<lambda>a. map (\<lambda>x. sqrt (- 2 * ln q / denom) * x + a)) ahy z)) = ar"
      by (simp only: ar_def df_def r_def m(4))
    show "collect (map (\<lambda>j. mvn_pdf np (col ar j) c) [0..<nat (M + 1)]) = Inr lik" by (rule lik)
  qed
  note hs = dyh_of_symmetric[OF dym n(1) dysym]
  define s' where "s' = map2 (\<lambda>x y. x - 2 * \<alpha> / lam * y) s v"
  note rq = reflected_quadratic_form[OF hs(1) n(3) hs(2) s(2)[folded n_def] lv s(3)[folded dy_def]
      ev(1)[folded dy_def] ev(2) zv, folded s'_def zp_def]
  define aP where "aP = (f / (dy ! 0 ! 0) - r * dot dI1 s' / (dy ! 0 ! 0)) # map (\<lambda>x. r * x) s'"
  note lpP = last_preimage[OF dym n(1) dysym d11 rq(3) rq(1), of f r,
      folded dI1_def, folded aP_def ahy']
  define uP where "uP = mat_vec (mat_T p) aP"
  have luP: "length uP = length w"
    unfolding uP_def using mat_vec_T_length[OF Pm n(1)] by (simp add: n_def)
  note tqP = transformed_quadratic_form[OF Pm n(1) c' lpP(3) rows cols, folded dy_def uP_def]
  note dfP = df_column[OF zm lahy m2(3), of f r, folded df_def, unfolded m2(2) zpc]
  have xP: "mat_vec c uP = col ar (nat M - 1)"
    using tqP(1) lpP(1) colar[OF m2(4)] dfP by (simp add: ahy')
  have QP: "dot (mat_vec c uP) uP = f * f / (dy ! 0 ! 0) + r * r * denom"
    using tqP(1,2) lpP(1,2) rq(2) by (simp add: denom_def)
  have likP: "lik ! (nat M - 1) = K * exp (- (f * f / (dy ! 0 ! 0) + r * r * denom) / 2)"
    using pdf(3) luP likj xP QP m2(4) by (metis Inr_inject)
  have pos: "lik ! 0 \<noteq> 0" using pdf(1) by (simp add: lik0)
  have e0: "map (\<lambda>l. l / lik ! 0) lik ! 0 = 1" using pos llik by simp
  have "r * r * denom = - 2 * ln q" using r2 denom by simp
  then have "lik ! nat M / lik ! 0 = exp (ln q)"
    unfolding likM lik0 using pdf(1)
    by (simp add: exp_diff[symmetric] exp_minus[symmetric] field_simps del: exp_ln)
  then have eM: "map (\<lambda>l. l / lik ! 0) lik ! nat M = q" using q llik by simp
  have "lik ! (nat M - 1) = lik ! nat M" by (simp only: likP likM)
  then have eP: "map (\<lambda>l. l / lik ! 0) lik ! (nat M - 1) = q" using eM llik m2(4) by simp
  have likcol: "lik ! Suc j = K * exp (- (f * f / (dy ! 0 ! 0) + r * r * dot (col z j) sj) / 2)"
    if j: "j < nat M" and lsj: "length sj = n - 1" and dsj: "mat_vec (dyh_of dy) sj = col z j"
    for j sj
  proof -
    define aj where "aj = (f / (dy ! 0 ! 0) - r * dot dI1 sj / (dy ! 0 ! 0)) # map (\<lambda>x. r * x) sj"
    note lpj = last_preimage[OF dym n(1) dysym d11 lsj dsj, of f r,
        folded dI1_def, folded aj_def ahy']
    define uj where "uj = mat_vec (mat_T p) aj"
    have luj: "length uj = length w"
      unfolding uj_def using mat_vec_T_length[OF Pm n(1)] by (simp add: n_def)
    note tqj = transformed_quadratic_form[OF Pm n(1) c' lpj(3) rows cols, folded dy_def uj_def]
    note dfj = df_column[OF zm lahy j, of f r, folded df_def]
    have Sj: "Suc j < Suc (nat M)" using j by simp
    have xj: "mat_vec c uj = col ar (Suc j)"
      using tqj(1) lpj(1) colar[OF Sj] dfj by (simp add: ahy')
    have Qj: "dot (mat_vec c uj) uj = f * f / (dy ! 0 ! 0) + r * r * dot (col z j) sj"
      using tqj(1,2) lpj(1,2) by simp
    show ?thesis using pdf(3) luj likj xj Qj Sj by (metis Inr_inject)
  qed
  have range: "\<forall>j<nat M + 1. q \<le> map (\<lambda>l. l / lik ! 0) lik ! j \<and> map (\<lambda>l. l / lik ! 0) lik ! j \<le> 1"
    if H: "(\<forall>l<nat M - 1.
              mat_vec (dyh_of (dy_of p c)) (col (v_of vals vect M) l) =
                map (\<lambda>x. vals ! (rev (argsort vals) ! l) * x) (col (v_of vals vect M) l) \<and>
              0 < vals ! (rev (argsort vals) ! l)) \<and>
           (\<forall>l<nat M - 1. \<forall>l'<nat M - 1.
              dot (col (v_of vals vect M) l) (col (v_of vals vect M) l') = (if l = l' then 1 else 0))"
  proof -
    define lams where "lams = map (\<lambda>l. vals ! (rev (argsort vals) ! l)) [0..<nat M - 1]"
    have ll: "length lams = nat M - 1" by (simp add: lams_def)
    have lamn: "lams ! l = vals ! (rev (argsort vals) ! l)" if "l < nat M - 1" for l
      using that by (simp add: lams_def)
    have E: "\<forall>l<nat M - 1. mat_vec (dyh_of dy) (col Vm l) = map (\<lambda>x. lams ! l * x) (col Vm l)"
      using H by (simp add: lamn Vm_def dy_def)
    have O: "\<forall>l<nat M - 1. \<forall>l'<nat M - 1. dot (col Vm l) (col Vm l') = (if l = l' then 1 else 0)"
      using H by (simp add: Vm_def)
    have pos: "0 < lams ! l" if "l < nat M - 1" for l using H that by (simp add: lamn)
    then have ne: "\<forall>l<nat M - 1. lams ! l \<noteq> 0" by fastforce
    have desc: "lams ! l' \<le> lams ! l" if "l \<le> l'" "l' < nat M - 1" for l l'
    proof -
      define srt where "srt = argsort vals"
      have ls: "length srt = n - 1" by (simp add: srt_def eig(2) n_def)
      have so: "sorted (map (\<lambda>i. vals ! i) srt)" by (simp add: srt_def argsort_def)
      have l: "l < n - 1" "l' < n - 1" using that m(5) by simp_all
      have "map (\<lambda>i. vals ! i) srt ! (n - 1 - Suc l') \<le> map (\<lambda>i. vals ! i) srt ! (n - 1 - Suc l)"
        using so by (rule sorted_nth_mono) (use that l in \<open>simp_all add: ls\<close>)
      then have "vals ! (srt ! (n - 1 - Suc l')) \<le> vals ! (srt ! (n - 1 - Suc l))"
        using l by (simp add: ls)
      moreover have "rev srt ! l = srt ! (n - 1 - Suc l)" "rev srt ! l' = srt ! (n - 1 - Suc l')"
        using l by (simp_all add: rev_nth ls)
      ultimately show ?thesis using that by (simp add: lamn srt_def)
    qed
    have lt: "length t = nat M - 1" using tm by (rule is_mat_length)
    have nct: "ncols t = nat M" using tm m(2) by (rule is_mat_ncols)
    define Q where "Q j = (\<Sum>l<nat M - 1. t ! l ! j * t ! l ! j / lams ! l)" for j
    have sol: "\<exists>sj. length sj = n - 1 \<and> mat_vec (dyh_of dy) sj = col z j \<and> dot (col z j) sj = Q j"
      if j: "j < nat M" for j
    proof -
      have lx: "length (col t j) = nat M - 1" by (simp add: lt)
      have cz: "col z j = mat_vec Vm (col t j)"
        unfolding z_def using j by (simp add: col_mat_mul nct)
      note eq = eigen_quadratic_form[OF hs(1) Vmm lx ll E O ne]
      have "(\<Sum>l<nat M - 1. col t j ! l * col t j ! l / lams ! l) = Q j"
        unfolding Q_def by (rule sum.cong) (simp_all add: col_nth lt)
      then show ?thesis
        by (intro exI[of _ "mat_vec Vm (map2 (\<lambda>u l. u / l) (col t j) lams)"])
           (use eq in \<open>simp add: cz\<close>)
    qed
    have likQ: "lik ! Suc j = K * exp (- (f * f / (dy ! 0 ! 0) + r * r * Q j) / 2)" if j: "j < nat M" for j
    proof -
      obtain sj where sj: "length sj = n - 1" "mat_vec (dyh_of dy) sj = col z j" "dot (col z j) sj = Q j"
        using sol[OF j] by blast
      show ?thesis using likcol[OF j sj(1,2)] by (simp only: sj(3))
    qed
    have mm: "nat M - 1 < nat M" using m by simp
    have dQ: "denom = Q (nat M - 1)"
    proof -
      obtain sl where sl: "length sl = n - 1" "mat_vec (dyh_of dy) sl = zl" "dot zl sl = Q (nat M - 1)"
        using sol[OF mm] by (auto simp: zlc)
      have "dot (mat_vec (dyh_of dy) sl) s = dot sl (mat_vec (dyh_of dy) s)"
        using hs(1) n(3) hs(2) sl(1) s(2)[folded n_def] by (rule dot_mat_vec_symmetric)
      then have "dot zl s = dot sl zl" by (simp only: sl(2) s(3)[folded dy_def])
      then show ?thesis using sl(3) by (simp add: denom_def dot_commute[of sl zl])
    qed
    have Q0: "0 \<le> Q j" for j
      unfolding Q_def by (rule sum_nonneg) (use pos in \<open>simp add: less_imp_le\<close>)
    have Qle: "Q j \<le> Q (nat M - 1)" if j: "j < nat M" for j
    proof (cases "j = nat M - 1")
      case True then show ?thesis by simp
    next
      case False
      then have j1: "j < nat M - 1" using j by simp
      note sh = simplex_vertex_shape[OF M(1) qrs t j1]
      have "(\<Sum>l<nat M - 1. t ! l ! j * t ! l ! j * (1 / lams ! l))
          \<le> (\<Sum>l<nat M - 1. t ! l ! (nat M - 1) * t ! l ! (nat M - 1) * (1 / lams ! l))"
      proof (rule weighted_sum_le[OF j1])
        show "t ! l ! j = t ! l ! (nat M - 1)" if "l < j" for l using sh(1)[OF that] .
        show "t ! l ! j = 0" if "j < l" "l < nat M - 1" for l using sh(2)[OF that] .
        show "(\<Sum>l<nat M - 1. t ! l ! j * t ! l ! j) =
              (\<Sum>l<nat M - 1. t ! l ! (nat M - 1) * t ! l ! (nat M - 1))" using sh(3) .
        show "1 / lams ! j \<le> 1 / lams ! l" if "j \<le> l" "l < nat M - 1" for l
          using desc[OF that] pos[OF that(2)] by (simp add: frac_le)
      qed
      then show ?thesis by (simp add: Q_def)
    qed
    have lnq: "ln q \<le> 0" using q by (simp add: ln_le_zero_iff)
    have rel: "q \<le> lik ! Suc j / lik ! 0 \<and> lik ! Suc j / lik ! 0 \<le> 1" if j: "j < nat M" for j
    proof -
      define a where "a = Q j / denom"
      have a: "0 \<le> a" "a \<le> 1" using Q0[of j] Qle[OF j] denom by (simp_all add: a_def dQ)
      have "r * r * Q j = - 2 * ln q * a" using r2 denom by (simp add: a_def)
      then have "lik ! Suc j / lik ! 0 = exp (ln q * a)"
        unfolding likQ[OF j] lik0 using pdf(1)
        by (simp add: exp_diff[symmetric] exp_minus[symmetric] field_simps del: exp_ln)
      moreover have "ln q * a \<le> 0" using lnq a(1) by (simp add: mult_nonpos_nonneg)
      moreover have "ln q \<le> ln q * a"
      proof -
        have "ln q * 1 \<le> ln q * a" using lnq a(2) by (rule mult_left_mono_neg[rotated]) 
        then show ?thesis by simp
      qed
      ultimately show ?thesis using q(1) by (metis exp_ln exp_le_cancel_iff exp_zero)
    qed
    show ?thesis
    proof (intro allI impI)
      fix j assume "j < nat M + 1"
      then have j: "j < Suc (nat M)" by simp
      show "q \<le> map (\<lambda>l. l / lik ! 0) lik ! j \<and> map (\<lambda>l. l / lik ! 0) lik ! j \<le> 1"
      proof (cases j)
        case 0 then show ?thesis using e0 q(2) by simp
      next
        case (Suc j')
        then have "j' < nat M" using j by simp
        then show ?thesis using rel[of j'] j llik by (simp add: Suc)
      qed
    qed
  qed
  show ?thesis
  proof (intro exI[of _ ar] exI[of _ "map (\<lambda>l. l / lik ! 0) lik"] conjI impI)
    show "comp_scenarios np c w L q M = Inr (ar, map (\<lambda>l. l / lik ! 0) lik)" by (rule res)
    show "length (map (\<lambda>l. l / lik ! 0) lik) = nat M + 1" using llik by simp
    show "map (\<lambda>l. l / lik ! 0) lik ! 0 = 1" by (rule e0)
    show "map (\<lambda>l. l / lik ! 0) lik ! (nat M - 1) = q" by (rule eP)
    show "map (\<lambda>l. l / lik ! 0) lik ! nat M = q" by (rule eM)
    assume "(\<forall>l<nat M - 1.
              mat_vec (dyh_of (dy_of p c)) (col (v_of vals vect M) l) =
                map (\<lambda>x. vals ! (rev (argsort vals) ! l) * x) (col (v_of vals vect M) l) \<and>
              0 < vals ! (rev (argsort vals) ! l)) \<and>
           (\<forall>l<nat M - 1. \<forall>l'<nat M - 1.
              dot (col (v_of vals vect M) l) (col (v_of vals vect M) l') = (if l = l' then 1 else 0))"
    then show "\<forall>j<nat M + 1. q \<le> map (\<lambda>l. l / lik ! 0) lik ! j \<and> map (\<lambda>l. l / lik ! 0) lik ! j \<le> 1"
      by (rule range)
  qed
qed
lemma p_start_100: "p_start [1, 0, 0] 0 = [[1, 0, 0], [0, 1, 0], [0, 0, 1]]"
  by (simp add: p_start_def zeros_def set_entry_def norm_v_def dot_def upt_rec numeral_3_eq_3
      del: dot_Cons)

lemma qr_eye_3: "qr_gram_schmidt (mat_T [[1, 0, 0], [0, 1, 0], [0, 0, 1]]) = [[1, 0, 0], [0, 1, 0], [0, 0, 1]]"
  by (simp add: qr_gram_schmidt_def mat_T_def ncols_def col_def vsub_proj_def norm_v_def
      upt_rec numeral_3_eq_3)

lemma qr_factor_100:
  "qr_factor (mat_T (p_start [1, 0, 0] 0)) (linalg_qr np_ref (mat_T (p_start [1, 0, 0] 0)))"
  unfolding p_start_100 np_ref_sel qr_eye_3
  by (simp add: qr_factor_def orthogonal_mat_def orthonormal_cols_def upper_triangular_def
      is_mat_def mat_mul_def mat_T_def col_def ncols_def eye_def upt_rec numeral_3_eq_3)

lemma dy_D: "dy_of [[1, 0, 0], [0, 1, 0], [0, 0, 1]] [[1, 0, 0], [0, 4, 0], [0, 0, 1]] =
    [[1, 0, 0], [0, 4, 0], [0, 0, 1]]"
  by (simp add: dy_of_def mat_mul_def mat_T_def col_def ncols_def upt_rec numeral_3_eq_3)

lemma dyh_D: "dyh_of [[1, 0, 0], [0, 4, 0], [0, 0, 1]] = [[4, 0], [0, 1]]"
  by (simp add: dyh_of_def)

lemma zl_D: "map last (mat_mul (v_of [4, 1] [[1, 0], [0, 1]] 3)
      [[1, - (1 / 2), - (1 / 2)], [0, sqrt 3 / 2, - (sqrt 3 / 2)]]) = [- (1 / 2), - (sqrt 3 / 2)]"
  by (simp add: v_of_def argsort_def mat_mul_def col_def ncols_def upt_rec numeral_2_eq_2 numeral_3_eq_3)

lemma solve_D: "solve_diag [[4, 0], [0, 1]] [- (1 / 2), - (sqrt 3 / 2)] = Inr [- (1 / 8), - (sqrt 3 / 2)]"
  by (simp add: solve_diag_def is_diag_def is_mat_def diag_def upt_rec numeral_2_eq_2)

lemma pdf_total_D:
  "\<forall>x. length x = length [1, 0, 0 :: real] \<longrightarrow>
       (\<exists>v. mvn_pdf np_ref x [[1, 0, 0], [0, 4, 0], [0, 0, 1]] = Inr v)"
  by (simp add: pdf_diag_def is_diag_def is_mat_def diag_def upt_rec numeral_3_eq_3)

lemma pdf_value_D:
  "\<forall>u. length u = length [1, 0, 0 :: real] \<longrightarrow>
       mvn_pdf np_ref (mat_vec [[1, 0, 0], [0, 4, 0], [0, 0, 1]] u) [[1, 0, 0], [0, 4, 0], [0, 0, 1]] =
       Inr (K_D * exp (- dot (mat_vec [[1, 0, 0], [0, 4, 0], [0, 0, 1]] u) u / 2))"
proof (intro allI impI)
  fix u :: vec assume "length u = length [1, 0, 0 :: real]"
  then obtain a b d where u: "u = [a, b, d]"
    by (auto simp: length_Suc_conv)
  show "mvn_pdf np_ref (mat_vec [[1, 0, 0], [0, 4, 0], [0, 0, 1]] u) [[1, 0, 0], [0, 4, 0], [0, 0, 1]] =
       Inr (K_D * exp (- dot (mat_vec [[1, 0, 0], [0, 4, 0], [0, 0, 1]] u) u / 2))"
    unfolding u
    by (simp add: pdf_diag_3 mat_vec_def K_D_def exp_add[symmetric] exp_minus[symmetric] algebra_simps)
qed

lemma simplex_start_2: "simplex_start 2 = [[1, 1], [0, 1]]"
  by (simp add: simplex_start_def eye_def upt_rec numeral_2_eq_2)

lemma qr_simplex_2:
  "qr_gram_schmidt (mat_T [[1, 1], [0, 1]]) = [[sqrt 2 / 2, - (sqrt 2 / 2)], [sqrt 2 / 2, sqrt 2 / 2]]"
  by (simp add: qr_gram_schmidt_def mat_T_def col_def ncols_def vsub_proj_def norm_v_def
      upt_rec numeral_2_eq_2 real_sqrt_divide sqrt_1_2 field_simps)

lemma qr_factor_simplex_2:
  "qr_factor (mat_T (simplex_start (nat 2))) (qr_gram_schmidt (mat_T (simplex_start (nat 2))))"
proof -
  have n: "nat 2 = 2" by simp
  show ?thesis
    unfolding n simplex_start_2 qr_simplex_2
    by (simp add: qr_factor_def orthogonal_mat_def orthonormal_cols_def upper_triangular_def
        is_mat_def mat_mul_def mat_T_def col_def ncols_def dot_def eye_def upt_rec numeral_2_eq_2)
qed

theorem likelihood_calibrated_witness:
  "(\<exists>S lik. comp_scenarios np_ref [[1, 0, 0], [0, 4, 0], [0, 0, 1]] [1, 0, 0] 1 (1 / 10) 3 = Inr (S, lik) \<and>
     length lik = 4 \<and> lik ! 0 = 1 \<and> 1 / 10 \<le> lik ! 1 \<and> lik ! 1 \<le> 1 \<and>
     lik ! 2 = 1 / 10 \<and> lik ! 3 = 1 / 10) \<and>
   (\<exists>S. comp_scenarios np_ref [[1, 0, 0], [0, 4, 0], [0, 0, 1]] [1, 0, 0] 1 (1 / 10) 2 =
      Inr (S, [1, 1 / 10, 1 / 10]))"
proof -
  let ?c = "[[1, 0, 0], [0, 4, 0], [0, 0, 1]] :: mat"
  let ?w = "[1, 0, 0] :: vec"
  let ?t = "[[1, - (1 / 2), - (1 / 2)], [0, sqrt 3 / 2, - (sqrt 3 / 2)]] :: mat"
  let ?zl = "[- (1 / 2), - (sqrt 3 / 2)] :: vec"
  let ?s = "[- (1 / 8), - (sqrt 3 / 2)] :: vec"
  have c: "is_mat (length ?w) (length ?w) ?c" by (simp add: is_mat_def)
  have sym: "\<forall>i<length ?w. \<forall>j<length ?w. ?c ! i ! j = ?c ! j ! i"
    by (auto simp: less_Suc_eq nth_Cons')
  have j0: "j0_of ?w = Inr 0" by (simp add: j0_of_def nonzero_def upt_rec numeral_3_eq_3)
  have nn: "\<forall>x\<in>set ?w. 0 \<le> x" by simp
  have wcw: "dot ?w (mat_vec ?c ?w) \<noteq> 0" by (simp add: mat_vec_def)
  have q: "0 < (1 / 10 :: real)" "(1 / 10 :: real) \<le> 1" by simp_all
  have M: "(2 :: int) \<le> 3" "nat 3 \<le> length ?w" by simp_all
  have qrs: "qr_factor (mat_T (simplex_start (nat 3))) (linalg_qr np_ref (mat_T (simplex_start (nat 3))))"
    using qr_factor_simplex_3 by simp
  have p: "p_from_w (linalg_qr np_ref) ?w = Inr [[1, 0, 0], [0, 1, 0], [0, 0, 1]]"
    by (simp add: p_from_w_100)
  have eig: "linalg_eig np_ref (dyh_of (dy_of [[1, 0, 0], [0, 1, 0], [0, 0, 1]] ?c)) = Inr ([4, 1], [[1, 0], [0, 1]])"
    "length [4, 1 :: real] = length ?w - 1" "is_mat (length ?w - 1) (length ?w - 1) [[1, 0], [0, 1]]"
    by (simp_all add: dy_D dyh_D eig_diag_2 is_mat_def)
  have t: "standard_simplex_vertices (linalg_qr np_ref) 3 = Inr ?t" by (simp add: simplex_3)
  have zl: "?zl = map last (mat_mul (v_of [4, 1] [[1, 0], [0, 1]] 3) ?t)" by (simp only: zl_D)
  have s: "linalg_solve np_ref (dyh_of (dy_of [[1, 0, 0], [0, 1, 0], [0, 0, 1]] ?c)) ?zl = Inr ?s"
    "length ?s = length ?w - 1"
    "mat_vec (dyh_of (dy_of [[1, 0, 0], [0, 1, 0], [0, 0, 1]] ?c)) ?s = ?zl"
    "0 < dot ?zl ?s"
    by (simp_all add: dy_D dyh_D solve_D mat_vec_def)
  have v: "[0, 1] = col (v_of [4, 1] [[1, 0], [0, 1]] 3) (nat 3 - 2)"
    by (simp add: v_of_def argsort_def col_def)
  have ev: "mat_vec (dyh_of (dy_of [[1, 0, 0], [0, 1, 0], [0, 0, 1]] ?c)) [0, 1] = map (\<lambda>x. 1 * x) [0, 1]"
    "(1 :: real) \<noteq> 0"
    by (simp_all add: dy_D dyh_D mat_vec_def)
  have orth: "\<forall>l<nat 3 - 2. dot (col (v_of [4, 1] [[1, 0], [0, 1]] 3) l) [0, 1] = 0"
    by (simp add: v_of_def argsort_def col_def)
  have K: "0 < K_D" by (simp add: K_D_def)
  have H: "(\<forall>l<nat 3 - 1.
              mat_vec (dyh_of (dy_of [[1, 0, 0], [0, 1, 0], [0, 0, 1]] ?c)) (col (v_of [4, 1] [[1, 0], [0, 1]] 3) l) =
                map (\<lambda>x. [4, 1] ! (rev (argsort [4, 1]) ! l) * x) (col (v_of [4, 1] [[1, 0], [0, 1]] 3) l) \<and>
              0 < [4, 1 :: real] ! (rev (argsort [4, 1]) ! l)) \<and>
           (\<forall>l<nat 3 - 1. \<forall>l'<nat 3 - 1.
              dot (col (v_of [4, 1] [[1, 0], [0, 1]] 3) l) (col (v_of [4, 1] [[1, 0], [0, 1]] 3) l') =
                (if l = l' then 1 else 0))"
    by (simp add: dy_D dyh_D v_of_def argsort_def col_def mat_vec_def less_Suc_eq numeral_2_eq_2)
  obtain S3 lik3 where r3: "comp_scenarios np_ref ?c ?w 1 (1 / 10) 3 = Inr (S3, lik3)"
    "length lik3 = nat 3 + 1" "lik3 ! 0 = 1" "lik3 ! (nat 3 - 1) = 1 / 10" "lik3 ! nat 3 = 1 / 10"
    and i3: "(\<forall>l<nat 3 - 1.
              mat_vec (dyh_of (dy_of [[1, 0, 0], [0, 1, 0], [0, 0, 1]] ?c)) (col (v_of [4, 1] [[1, 0], [0, 1]] 3) l) =
                map (\<lambda>x. [4, 1] ! (rev (argsort [4, 1]) ! l) * x) (col (v_of [4, 1] [[1, 0], [0, 1]] 3) l) \<and>
              0 < [4, 1 :: real] ! (rev (argsort [4, 1]) ! l)) \<and>
           (\<forall>l<nat 3 - 1. \<forall>l'<nat 3 - 1.
              dot (col (v_of [4, 1] [[1, 0], [0, 1]] 3) l) (col (v_of [4, 1] [[1, 0], [0, 1]] 3) l') =
                (if l = l' then 1 else 0)) \<longrightarrow>
           (\<forall>j<nat 3 + 1. 1 / 10 \<le> lik3 ! j \<and> lik3 ! j \<le> 1)"
    using likelihood_calibrated [OF c sym j0 nn wcw q M qr_factor_100 qrs p eig t zl s v ev orth K
        pdf_total_D pdf_value_D, of 1]
    by blast
  have "\<forall>j<nat 3 + 1. 1 / 10 \<le> lik3 ! j \<and> lik3 ! j \<le> 1" using i3 H by (rule mp)
  then have b3: "1 / 10 \<le> lik3 ! 1" "lik3 ! 1 \<le> 1" by simp_all
  have three: "\<exists>S lik. comp_scenarios np_ref ?c ?w 1 (1 / 10) 3 = Inr (S, lik) \<and>
     length lik = 4 \<and> lik ! 0 = 1 \<and> 1 / 10 \<le> lik ! 1 \<and> lik ! 1 \<le> 1 \<and>
     lik ! 2 = 1 / 10 \<and> lik ! 3 = 1 / 10"
    using r3 b3 by (intro exI[of _ S3] exI[of _ lik3]) simp
  have M2: "(2 :: int) \<le> 2" "nat 2 \<le> length ?w" by simp_all
  have qrs2: "qr_factor (mat_T (simplex_start (nat 2))) (linalg_qr np_ref (mat_T (simplex_start (nat 2))))"
    using qr_factor_simplex_2 by simp
  have t2: "standard_simplex_vertices (linalg_qr np_ref) 2 = Inr [[1, - 1]]" by (simp add: simplex_2)
  have zl2: "[- 1, 0] = map last (mat_mul (v_of [4, 1] [[1, 0], [0, 1]] 2) [[1, - 1]])"
    by (simp add: v_of_def argsort_def mat_mul_def col_def ncols_def upt_rec numeral_2_eq_2)
  have s2: "linalg_solve np_ref (dyh_of (dy_of [[1, 0, 0], [0, 1, 0], [0, 0, 1]] ?c)) [- 1, 0] = Inr [- (1 / 4), 0]"
    "length [- (1 / 4), 0 :: real] = length ?w - 1"
    "mat_vec (dyh_of (dy_of [[1, 0, 0], [0, 1, 0], [0, 0, 1]] ?c)) [- (1 / 4), 0] = [- 1, 0]"
    "0 < dot [- 1, 0] [- (1 / 4), 0 :: real]"
    by (simp_all add: dy_D dyh_D solve_diag_def is_diag_def is_mat_def diag_def mat_vec_def
        upt_rec numeral_2_eq_2)
  have v2: "[1, 0] = col (v_of [4, 1] [[1, 0], [0, 1]] 2) (nat 2 - 2)"
    by (simp add: v_of_def argsort_def col_def)
  have ev2: "mat_vec (dyh_of (dy_of [[1, 0, 0], [0, 1, 0], [0, 0, 1]] ?c)) [1, 0] = map (\<lambda>x. 4 * x) [1, 0]"
    "(4 :: real) \<noteq> 0"
    by (simp_all add: dy_D dyh_D mat_vec_def)
  have orth2: "\<forall>l<nat 2 - 2. dot (col (v_of [4, 1] [[1, 0], [0, 1]] 2) l) [1, 0] = 0"
    by simp
  obtain S lik where r: "comp_scenarios np_ref ?c ?w 1 (1 / 10) 2 = Inr (S, lik)"
    "length lik = nat 2 + 1" "lik ! 0 = 1" "lik ! (nat 2 - 1) = 1 / 10" "lik ! nat 2 = 1 / 10"
    using likelihood_calibrated [OF c sym j0 nn wcw q M2 qr_factor_100 qrs2 p eig t2 zl2 s2 v2 ev2
        orth2 K pdf_total_D pdf_value_D, of 1]
    by blast
  obtain a b d where l: "lik = [a, b, d]"
    using r(2) by (auto simp: length_Suc_conv numeral_3_eq_3)
  have "lik = [1, 1 / 10, 1 / 10]" using r(3,4,5) unfolding l by simp
  then have two: "\<exists>S. comp_scenarios np_ref ?c ?w 1 (1 / 10) 2 = Inr (S, [1, 1 / 10, 1 / 10])"
    using r(1) by blast
  show ?thesis using three two by (rule conjI)
qed
subsection \<open>The parameters \<open>q\<close> and \<open>M\<close> are not validated\<close>

lemma simplex_small_error:
  assumes "M < 2" and "M = 1 \<longrightarrow> is_mat 1 1 (qr [[1]])"
  shows "standard_simplex_vertices qr M =
           Inl (if M < 0 then ValueError else if M = 0 then ZeroDivisionError else IndexError)"
proof -
  consider "M < 0" | "M = 0" | "M = 1" using assms(1) by linarith
  then show ?thesis
  proof cases
    case 1 then show ?thesis by (simp add: standard_simplex_vertices_def)
  next
    case 2 then show ?thesis by (simp add: standard_simplex_vertices_def)
  next
    case 3
    obtain x where q: "qr [[1]] = [[x]]"
      using assms(2) 3 by (auto simp: is_mat_def length_Suc_conv)
    have "gram_schmidt_rows qr (simplex_start 1) = [[x]]"
      by (simp add: gram_schmidt_rows_def simplex_start_def eye_def mat_T_def ncols_def col_def q)
    then show ?thesis using 3
      by (simp add: standard_simplex_vertices_def Let_def eye_def mat_mul_def)
  qed
qed

text \<open>With the radius 0 every column is the central one.\<close>

lemma df_radius_zero:
  fixes f :: real
  assumes z: "is_mat k m z" and m: "0 < m" and a: "length ahy = k" and j: "j < Suc m"
  defines "df \<equiv> replicate (Suc m) f # map2 (#) ahy (map2 (\<lambda>a. map (\<lambda>x. 0 * x + a)) ahy z)"
  shows "col df j = f # ahy"
proof (cases j)
  case 0
  then show ?thesis using df_columns(2)[OF z m a, of f 0] by (simp only: df_def)
next
  case (Suc i)
  then have i: "i < m" using j by simp
  have "map2 (\<lambda>a zl. 0 * zl + a) ahy (col z i) = ahy"
    by (rule nth_equalityI) (use z a in \<open>simp_all add: is_mat_length\<close>)
  then show ?thesis using df_column[OF z a i, of f 0] by (simp only: df_def Suc)
qed

lemma comp_scenarios_q_one_general:
  assumes M: "2 \<le> M" "nat M \<le> length w"
    and c: "is_mat (length w) (length w) c"
    and p: "p_from_w (linalg_qr np) w = Inr p" "is_mat (length w) (length w) p"
    and eig: "linalg_eig np (dyh_of (dy_of p c)) = Inr (vals, vect)"
             "length vals = length w - 1" "is_mat (length w - 1) (length w - 1) vect"
    and t: "standard_simplex_vertices (linalg_qr np) M = Inr t" "is_mat (nat M - 1) (nat M) t"
    and s: "linalg_solve np (dyh_of (dy_of p c)) (map last (mat_mul (v_of vals vect M) t)) = Inr s"
    and pdf: "\<forall>x. length x = length w \<longrightarrow> (\<exists>d. mvn_pdf np x c = Inr d \<and> d \<noteq> 0)"
  shows "\<exists>S. comp_scenarios np c w L 1 M = Inr (S, replicate (nat M + 1) 1) \<and>
             (\<forall>j<nat M + 1. col S j = col S 0)"
proof -
  define n where "n = length w"
  have "2 \<le> length w" using M by linarith
  then have n: "0 < n" "2 \<le> n" "0 < n - 1" unfolding n_def by linarith+
  have m: "0 < nat M" "0 < nat M - 1" "nat (M - 1) = nat M - 1" "nat (M + 1) = Suc (nat M)"
    "nat M - 1 \<le> n - 1"
    using M unfolding n_def by linarith+
  note Pm = p(2)[folded n_def] and c' = c[folded n_def]
  define f where "f = mat_vec p (map (\<lambda>x. L * x / dot w (mat_vec c w)) (mat_vec c w)) ! 0"
  define dy where "dy = dy_of p c"
  have dym: "is_mat n n dy" unfolding dy_def using Pm n(1) c' by (rule dy_of_is_mat)
  define ahy where "ahy = map (\<lambda>x. L * x / (dy ! 0 ! 0) / norm_v w) (map (\<lambda>r. r ! 0) (tl dy))"
  have lahy: "length ahy = n - 1" using dym by (simp add: ahy_def is_mat_length)
  define dyh where "dyh = dyh_of dy"
  define Vm where "Vm = v_of vals vect M"
  have Vmm: "is_mat (n - 1) (nat M - 1) Vm"
    unfolding Vm_def using v_of_is_mat[of "n - 1" vect vals M] eig(2,3) m by (simp add: n_def)
  have ncV: "ncols Vm = length t"
    using is_mat_ncols[OF Vmm n(3)] t(2) by (simp add: is_mat_length)
  define z where "z = mat_mul Vm t"
  have zm: "is_mat (n - 1) (nat M) z" unfolding z_def using Vmm t(2) m(2) by (rule mat_mul_is_mat)
  define denom where "denom = dot (map last z) s"
  have qfi: "quadratic_form_inv (linalg_solve np) dyh (map last z) = Inr denom"
    using s by (simp add: quadratic_form_inv_def dyh_def dy_def z_def Vm_def denom_def)
  define df where "df = replicate (Suc (nat M)) f # map2 (#) ahy (map2 (\<lambda>a. map (\<lambda>x. 0 * x + a)) ahy z)"
  have dfm: "is_mat (Suc (n - 1)) (Suc (nat M)) df"
    using df_columns(1)[OF zm m(1) lahy, of f 0] by (simp only: df_def)
  have dfc: "col df j = f # ahy" if "j < Suc (nat M)" for j
    using df_radius_zero[OF zm m(1) lahy that, of f] by (simp only: df_def)
  define ar where "ar = mat_mul (mat_T p) df"
  have ncdf: "ncols df = Suc (nat M)" using dfm by (rule is_mat_ncols) simp
  have colar: "col ar j = mat_vec (mat_T p) (f # ahy)" if "j < Suc (nat M)" for j
    unfolding ar_def using that by (simp add: col_mat_mul ncdf dfc)
  have lcol: "length (col ar j) = length w" for j
    using mat_T_is_mat[OF Pm n(1)] by (simp add: ar_def is_mat_length n_def)
  have "length (mat_vec (mat_T p) (f # ahy)) = length w"
    using lcol[of 0] colar[of 0] by simp
  then obtain d where d: "mvn_pdf np (mat_vec (mat_T p) (f # ahy)) c = Inr d" "d \<noteq> 0"
    using pdf by blast
  have "\<forall>j\<in>set [0..<nat (M + 1)]. \<exists>v. mvn_pdf np (col ar j) c = Inr v"
    using colar d(1) by (simp add: m(4))
  then obtain lik where lik: "collect (map (\<lambda>j. mvn_pdf np (col ar j) c) [0..<nat (M + 1)]) = Inr lik"
    and llik: "length lik = Suc (nat M)"
    and likj: "\<forall>j<Suc (nat M). mvn_pdf np (col ar j) c = Inr (lik ! j)"
    using collect_map[of "[0..<nat (M + 1)]" "\<lambda>j. mvn_pdf np (col ar j) c"]
    by (auto simp: m(4) simp del: upt_Suc)
  have likd: "lik ! j = d" if "j < Suc (nat M)" for j
    using likj colar[OF that] d(1) that by (metis Inr_inject)
  have "map (\<lambda>l. l / lik ! 0) lik = replicate (Suc (nat M)) 1"
    by (rule nth_equalityI) (use llik likd d(2) in \<open>simp_all del: replicate_Suc\<close>)
  then have rel: "map (\<lambda>l. l / lik ! 0) lik = replicate (nat M + 1) 1" by simp
  have res: "comp_scenarios np c w L 1 M = Inr (ar, map (\<lambda>l. l / lik ! 0) lik)"
  proof (rule comp_scenarios_eval[where p = p and first_comp = f and dy = dy and ahy = ahy
        and dyh = dyh and vals = vals and vect = vect and t = t and z = z and denom = denom
        and V = "map (\<lambda>r. map (\<lambda>j. r ! j) (rev (argsort vals))) vect"])
    show "is_mat (length w) (length w) c" by (rule c)
    show "p_from_w (linalg_qr np) w = Inr p" by (rule p(1))
    show "mat_vec p (map (\<lambda>x. L * x / dot w (mat_vec c w)) (mat_vec c w)) ! 0 = f"
      by (simp only: f_def)
    show "mat_mul p (mat_mul c (mat_T p)) = dy" by (simp add: dy_def dy_of_def)
    show "map (\<lambda>x. L * x / (dy ! 0 ! 0) / norm_v w) (map (\<lambda>r. r ! 0) (tl dy)) = ahy"
      by (simp only: ahy_def)
    show "map2 (map2 (\<lambda>x y. x - y / (dy ! 0 ! 0))) (map tl (tl dy))
           (map (\<lambda>a. map (\<lambda>b. a * b) (map (\<lambda>r. r ! 0) (tl dy))) (map (\<lambda>r. r ! 0) (tl dy))) = dyh"
      by (simp only: dyh_def dyh_of_def Let_def)
    show "linalg_eig np dyh = Inr (vals, vect)" using eig(1) by (simp only: dyh_def dy_def)
    show "map (\<lambda>r. map (\<lambda>j. r ! j) (rev (argsort vals))) vect =
          map (\<lambda>r. map (\<lambda>j. r ! j) (rev (argsort vals))) vect" ..
    show "standard_simplex_vertices (linalg_qr np) M = Inr t" by (rule t(1))
    show "ncols (map (take (nat (M - 1))) (map (\<lambda>r. map (\<lambda>j. r ! j) (rev (argsort vals))) vect)) = length t"
      using ncV by (simp only: Vm_def v_of_def Let_def)
    show "mat_mul (map (take (nat (M - 1))) (map (\<lambda>r. map (\<lambda>j. r ! j) (rev (argsort vals))) vect)) t = z"
      by (simp only: z_def Vm_def v_of_def Let_def)
    show "quadratic_form_inv (linalg_solve np) dyh (map last z) = Inr denom" by (rule qfi)
    show "mat_mul (mat_T p) (replicate (nat (M + 1)) f #
           map2 (#) ahy (map2 (\<lambda>a. map (\<lambda>x. sqrt (- 2 * ln 1 / denom) * x + a)) ahy z)) = ar"
      by (simp add: ar_def df_def m(4))
    show "collect (map (\<lambda>j. mvn_pdf np (col ar j) c) [0..<nat (M + 1)]) = Inr lik" by (rule lik)
  qed
  have eq: "\<forall>j<nat M + 1. col ar j = col ar 0"
  proof (intro allI impI)
    fix j assume "j < nat M + 1"
    then have j: "j < Suc (nat M)" by simp
    show "col ar j = col ar 0" unfolding colar[OF j] colar[OF zero_less_Suc] ..
  qed
  show ?thesis
  proof (intro exI[of _ ar] conjI)
    show "comp_scenarios np c w L 1 M = Inr (ar, replicate (nat M + 1) 1)"
      using res by (simp only: rel)
    show "\<forall>j<nat M + 1. col ar j = col ar 0" by (rule eq)
  qed
qed

lemma small_M_fails:
  assumes "M < 2" "M = 1 \<longrightarrow> is_mat 1 1 (linalg_qr np [[1]])"
  shows "\<exists>e. comp_scenarios np c w L q M = Inl e"
proof -
  obtain e where e: "standard_simplex_vertices (linalg_qr np) M = Inl e"
    using simplex_small_error[of M "linalg_qr np"] assms by blast
  show ?thesis
    unfolding comp_scenarios_def Let_def e
    by (simp split: sum.splits prod.splits)
qed

lemma small_M_error:
  assumes "M < 2" "M = 1 \<longrightarrow> is_mat 1 1 (linalg_qr np [[1]])"
    and 1: "is_mat (length w) (length w) c" and 2: "p_from_w (linalg_qr np) w = Inr p"
    and 3: "linalg_eig np (dyh_of (dy_of p c)) = Inr (vals, vect)"
  shows "comp_scenarios np c w L q M =
      Inl (if M < 0 then ValueError else if M = 0 then ZeroDivisionError else IndexError)"
proof -
  have e: "standard_simplex_vertices (linalg_qr np) M =
      Inl (if M < 0 then ValueError else if M = 0 then ZeroDivisionError else IndexError)"
    using assms(1,2) by (rule simplex_small_error)
  show ?thesis
    unfolding comp_scenarios_def Let_def
    by (simp only: 1 2 3 e simp_thms if_False sum.case prod.case)
qed

text \<open>
  Claim C7, as amended. \<^verbatim>\<open>comp_scenarios\<close> validates neither \<open>q\<close> nor \<open>M\<close>, and the
  notebook defines no error for an invalid parameter.
  \<^item> For \<open>M < 2\<close> and any \<open>q\<close> the call fails (for \<open>M = 1\<close>: given that the factor of a
    1-by-1 array is 1-by-1). When \<open>C\<close> is \<open>n \<times> n\<close>, \<^verbatim>\<open>p_from_w\<close> has accepted \<open>w\<close> and \<^verbatim>\<open>eig\<close> has
    returned, the error is the one of \<^verbatim>\<open>standard_simplex_vertices\<close>: \<^verbatim>\<open>ValueError\<close> for
    \<open>M < 0\<close>, \<^verbatim>\<open>ZeroDivisionError\<close> for \<open>M = 0\<close>, \<^verbatim>\<open>IndexError\<close> for \<open>M = 1\<close>.
  \<^item> For \<open>q = 1\<close>, outside the open interval, the call returns: let \<open>2 \<le> M \<le> n\<close>, \<open>C\<close>
    be \<open>n \<times> n\<close> with \<open>w' C w \<noteq> 0\<close>, \<^verbatim>\<open>p_from_w\<close> return an \<open>n \<times> n\<close> array \<open>p\<close> with
    \<open>dy[0, 0] \<noteq> 0\<close>, \<^verbatim>\<open>eig\<close> return \<open>n - 1\<close> values and an \<open>(n - 1) \<times> (n - 1)\<close> array,
    \<^verbatim>\<open>standard_simplex_vertices\<close> return an \<open>(M - 1) \<times> M\<close> array, \<^verbatim>\<open>solve\<close> return a
    vector \<open>s\<close> with \<open>z_last \<cdot> s \<noteq> 0\<close>, and the density be defined and not zero at every
    point of length \<open>n\<close>. Then the result has the likelihood vector \<open>[1, ..., 1]\<close> of
    length \<open>M + 1\<close>, and every column of the scenarios equals \<^verbatim>\<open>Scenario_0\<close>.

  Nothing is stated for \<open>q \<le> 0\<close> and for \<open>q > 1\<close>, where numpy computes with \<^verbatim>\<open>nan\<close> and
  \<^verbatim>\<open>inf\<close>.
\<close>

theorem comp_scenarios_unvalidated:
  "(M < 2 \<and> (M = 1 \<longrightarrow> is_mat 1 1 (linalg_qr np [[1]])) \<longrightarrow>
      (\<exists>e. comp_scenarios np c w L q M = Inl e)) \<and>
   (M < 2 \<and> (M = 1 \<longrightarrow> is_mat 1 1 (linalg_qr np [[1]])) \<and> is_mat (length w) (length w) c \<and>
    p_from_w (linalg_qr np) w = Inr p \<and> linalg_eig np (dyh_of (dy_of p c)) = Inr (vals, vect) \<longrightarrow>
      comp_scenarios np c w L q M =
        Inl (if M < 0 then ValueError else if M = 0 then ZeroDivisionError else IndexError)) \<and>
   (2 \<le> M \<and> nat M \<le> length w \<and> is_mat (length w) (length w) c \<and>
    dot w (mat_vec c w) \<noteq> 0 \<and>
    p_from_w (linalg_qr np) w = Inr p \<and> is_mat (length w) (length w) p \<and>
    dy_of p c ! 0 ! 0 \<noteq> 0 \<and>
    linalg_eig np (dyh_of (dy_of p c)) = Inr (vals, vect) \<and>
    length vals = length w - 1 \<and> is_mat (length w - 1) (length w - 1) vect \<and>
    standard_simplex_vertices (linalg_qr np) M = Inr t \<and> is_mat (nat M - 1) (nat M) t \<and>
    linalg_solve np (dyh_of (dy_of p c)) (map last (mat_mul (v_of vals vect M) t)) = Inr s \<and>
    dot (map last (mat_mul (v_of vals vect M) t)) s \<noteq> 0 \<and>
    (\<forall>x. length x = length w \<longrightarrow> (\<exists>d. mvn_pdf np x c = Inr d \<and> d \<noteq> 0)) \<longrightarrow>
      (\<exists>S. comp_scenarios np c w L 1 M = Inr (S, replicate (nat M + 1) 1) \<and>
           (\<forall>j<nat M + 1. col S j = col S 0)))"
proof (intro conjI impI)
  assume "M < 2 \<and> (M = 1 \<longrightarrow> is_mat 1 1 (linalg_qr np [[1]]))"
  then show "\<exists>e. comp_scenarios np c w L q M = Inl e"
    by (elim conjE) (rule small_M_fails)
next
  assume "M < 2 \<and> (M = 1 \<longrightarrow> is_mat 1 1 (linalg_qr np [[1]])) \<and> is_mat (length w) (length w) c \<and>
    p_from_w (linalg_qr np) w = Inr p \<and> linalg_eig np (dyh_of (dy_of p c)) = Inr (vals, vect)"
  then show "comp_scenarios np c w L q M =
      Inl (if M < 0 then ValueError else if M = 0 then ZeroDivisionError else IndexError)"
    by (elim conjE) (rule small_M_error)
next
  assume "2 \<le> M \<and> nat M \<le> length w \<and> is_mat (length w) (length w) c \<and>
    dot w (mat_vec c w) \<noteq> 0 \<and>
    p_from_w (linalg_qr np) w = Inr p \<and> is_mat (length w) (length w) p \<and>
    dy_of p c ! 0 ! 0 \<noteq> 0 \<and>
    linalg_eig np (dyh_of (dy_of p c)) = Inr (vals, vect) \<and>
    length vals = length w - 1 \<and> is_mat (length w - 1) (length w - 1) vect \<and>
    standard_simplex_vertices (linalg_qr np) M = Inr t \<and> is_mat (nat M - 1) (nat M) t \<and>
    linalg_solve np (dyh_of (dy_of p c)) (map last (mat_mul (v_of vals vect M) t)) = Inr s \<and>
    dot (map last (mat_mul (v_of vals vect M) t)) s \<noteq> 0 \<and>
    (\<forall>x. length x = length w \<longrightarrow> (\<exists>d. mvn_pdf np x c = Inr d \<and> d \<noteq> 0))"
  then show "\<exists>S. comp_scenarios np c w L 1 M = Inr (S, replicate (nat M + 1) 1) \<and>
           (\<forall>j<nat M + 1. col S j = col S 0)"
    by (elim conjE) (rule comp_scenarios_q_one_general)
qed

lemma dy_34: "dy_of [[3 / 5, 4 / 5], [- (4 / 5), 3 / 5]] [[1, 0], [0, 1]] = [[1, 0], [0, 1]]"
  by (simp add: dy_of_def mat_ev upt_rec numeral_2_eq_2)

lemma dyh_I2: "dyh_of [[1, 0], [0, 1]] = [[1]]"
  by (simp add: dyh_of_def)

lemma zl_34: "map last (mat_mul (v_of [1] [[1]] 2) [[1, - 1]]) = [- 1]"
  by (simp add: v_of_def argsort_1 mat_ev upt_rec numeral_2_eq_2)

lemma pdf_nonzero_I2:
  "\<forall>x. length x = length [3, 4 :: real] \<longrightarrow> (\<exists>d. mvn_pdf np_ref x [[1, 0], [0, 1]] = Inr d \<and> d \<noteq> 0)"
proof (intro allI impI)
  fix x :: vec assume "length x = length [3, 4 :: real]"
  then obtain a b where x: "x = [a, b]" by (auto simp: length_Suc_conv)
  show "\<exists>d. mvn_pdf np_ref x [[1, 0], [0, 1]] = Inr d \<and> d \<noteq> 0"
    unfolding x by (simp add: pdf_diag_2)
qed

theorem comp_scenarios_unvalidated_witness:
  "(\<exists>e. comp_scenarios np_ref [[1, 0], [0, 1]] [3, 4] 5 (1 / 2) 1 = Inl e) \<and>
   comp_scenarios np_ref [[1, 0], [0, 1]] [3, 4] 5 (1 / 2) 1 = Inl IndexError \<and>
   (\<exists>S. comp_scenarios np_ref [[1, 0], [0, 1]] [3, 4] 5 1 2 = Inr (S, [1, 1, 1]) \<and>
        col S 1 = col S 0 \<and> col S 2 = col S 0)"
proof -
  let ?c = "[[1, 0], [0, 1]] :: mat"
  let ?w = "[3, 4] :: vec"
  let ?p = "[[3 / 5, 4 / 5], [- (4 / 5), 3 / 5]] :: mat"
  have h: "(1 :: int) = 1 \<longrightarrow> is_mat 1 1 (linalg_qr np_ref [[1]])"
    by (simp add: is_mat_def qr_gram_schmidt_def mat_T_def ncols_def col_def norm_v_def dot_def)
  have M1: "(1 :: int) < 2" by simp
  have M2: "(2 :: int) \<le> 2" "nat 2 \<le> length ?w" by simp_all
  have c: "is_mat (length ?w) (length ?w) ?c" by (simp add: is_mat_def)
  have p: "p_from_w (linalg_qr np_ref) ?w = Inr ?p" "is_mat (length ?w) (length ?w) ?p"
    by (simp_all add: p_from_w_3_4 is_mat_def)
  have eig: "linalg_eig np_ref (dyh_of (dy_of ?p ?c)) = Inr ([1], [[1]])"
    "length [1 :: real] = length ?w - 1" "is_mat (length ?w - 1) (length ?w - 1) [[1]]"
    by (simp_all add: dy_34 dyh_I2 eig_diag_1 is_mat_def)
  have t: "standard_simplex_vertices (linalg_qr np_ref) 2 = Inr [[1, - 1]]"
    "is_mat (nat 2 - 1) (nat 2) [[1, - 1]]"
    by (simp_all add: simplex_2 is_mat_def)
  have s: "linalg_solve np_ref (dyh_of (dy_of ?p ?c)) (map last (mat_mul (v_of [1] [[1]] 2) [[1, - 1]])) = Inr [- 1]"
    "dot (map last (mat_mul (v_of [1] [[1]] 2) [[1, - 1]])) [- 1] \<noteq> 0"
    by (simp_all add: dy_34 dyh_I2 zl_34 solve_diag_def is_diag_def is_mat_def diag_def)
  have k: "dot ?w (mat_vec ?c ?w) \<noteq> 0" "dy_of ?p ?c ! 0 ! 0 \<noteq> 0"
    by (simp_all add: dy_34 mat_vec_def)
  note th1 = comp_scenarios_unvalidated [of 1 np_ref ?c ?w 5 "1 / 2" ?p "[1]" "[[1]]" "[[1, - 1]]" "[- 1]"]
  note th2 = comp_scenarios_unvalidated [of 2 np_ref ?c ?w 5 1 ?p "[1]" "[[1]]" "[[1, - 1]]" "[- 1]"]
  have a1: "\<exists>e. comp_scenarios np_ref ?c ?w 5 (1 / 2) 1 = Inl e"
    by (rule th1[THEN conjunct1, THEN mp]) (intro conjI, rule M1, rule h)
  have "comp_scenarios np_ref ?c ?w 5 (1 / 2) 1 =
      Inl (if (1 :: int) < 0 then ValueError else if (1 :: int) = 0 then ZeroDivisionError else IndexError)"
    by (rule th1[THEN conjunct2, THEN conjunct1, THEN mp])
       (intro conjI, rule M1, rule h, rule c, rule p(1), rule eig(1))
  then have a2: "comp_scenarios np_ref ?c ?w 5 (1 / 2) 1 = Inl IndexError" by simp
  have "\<exists>S. comp_scenarios np_ref ?c ?w 5 1 2 = Inr (S, replicate (nat 2 + 1) 1) \<and>
           (\<forall>j<nat 2 + 1. col S j = col S 0)"
    by (rule th2[THEN conjunct2, THEN conjunct2, THEN mp])
       (intro conjI, rule M2(1), rule M2(2), rule c, rule k(1), rule p(1), rule p(2), rule k(2),
        rule eig(1), rule eig(2), rule eig(3), rule t(1), rule t(2), rule s(1), rule s(2),
        rule pdf_nonzero_I2)
  then obtain S where S: "comp_scenarios np_ref ?c ?w 5 1 2 = Inr (S, replicate (nat 2 + 1) 1)"
    "\<forall>j<nat 2 + 1. col S j = col S 0" by blast
  have b1: "comp_scenarios np_ref ?c ?w 5 1 2 = Inr (S, [1, 1, 1])"
    using S(1) by (simp add: numeral_3_eq_3)
  have b2: "col S 1 = col S 0" "col S 2 = col S 0"
    using S(2)[rule_format, of 1] S(2)[rule_format, of 2] by simp_all
  show ?thesis
    by (intro conjI a1 a2 exI[of _ S] b1 b2)
qed

text \<open>
  Claim C7 as stated fails for \<open>q\<close>: with \<open>q = 1\<close>, outside the open interval, the
  procedure returns a result, three copies of the central scenario with likelihood 1.
\<close>

theorem comp_scenarios_q_one: 
  "comp_scenarios np_ref [[1, 0], [0, 1]] [3, 4] 5 1 2 =
     Inr ([[3 / 5, 3 / 5, 3 / 5], [4 / 5, 4 / 5, 4 / 5]], [1, 1, 1])"
  by (rule run_q1)

end
